theory Spec2Isabelle
  imports Complex_Main "HOL-Library.Word"
begin

section \<open>Audio buffers\<close>

text \<open>
  A Node.js \<open>Buffer\<close> is a sequence of bytes. Offsets, lengths and the numeric parameters
  of the audio functions are JavaScript numbers; they are modelled as \<open>int\<close>, so that an
  offset that runs below zero is a value of the model, as it is in the source.
\<close>

type_synonym byte = "8 word"
type_synonym buffer = "byte list"

datatype error = RangeError | ChunkingImpossible | TypeError

text \<open>
  \<open>buf.readInt16LE(i)\<close>: the two bytes at \<open>i\<close> and \<open>i + 1\<close> as a signed little-endian
  16-bit value; an offset outside \<open>0 .. length - 2\<close> raises a range error.
\<close>

definition int16LE :: "byte \<Rightarrow> byte \<Rightarrow> int" where
  "int16LE lo hi =
     (let val = uint lo + uint hi * 256 in if val \<ge> 32768 then val - 65536 else val)"

definition readInt16LE :: "buffer \<Rightarrow> int \<Rightarrow> error + int" where
  "readInt16LE buf i =
     (if i < 0 \<or> int (length buf) < i + 2 then Inl RangeError
      else Inr (int16LE (buf ! nat i) (buf ! nat (i + 1))))"

text \<open>
  \<open>buf.slice(a, b)\<close> and \<open>buf.slice(a)\<close>: a negative index counts from the end of the
  buffer, and every index is clamped to the buffer.
\<close>

definition clampIndex :: "nat \<Rightarrow> int \<Rightarrow> nat" where
  "clampIndex len k = (if k < 0 then nat (max 0 (int len + k)) else min (nat k) len)"

definition slice :: "buffer \<Rightarrow> int \<Rightarrow> int \<Rightarrow> buffer" where
  "slice buf a b =
     take (clampIndex (length buf) b - clampIndex (length buf) a)
       (drop (clampIndex (length buf) a) buf)"

definition sliceFrom :: "buffer \<Rightarrow> int \<Rightarrow> buffer" where
  "sliceFrom buf a = drop (clampIndex (length buf) a) buf"

subsection \<open>truncateSilences\<close>

text \<open>
  The \<open>for\<close> loop of \<open>truncateSilences\<close>, one call per iteration; the arguments after the
  parameters are the loop's variables \<open>buf\<close>, \<open>i\<close>, \<open>start\<close> and \<open>end\<close> (\<open>None\<close> is
  \<open>null\<close>). The call made after a deletion passes \<open>i - deleteCount + 2\<close>: the assignment
  \<open>i -= deleteCount\<close> followed by the loop's own \<open>i += 2\<close>. The result is \<open>None\<close> when the
  loop does not end.
\<close>

partial_function (option) truncateLoop ::
  "int \<Rightarrow> int \<Rightarrow> buffer \<Rightarrow> int \<Rightarrow> int \<Rightarrow> int option \<Rightarrow> (error + buffer) option" where
  "truncateLoop maxSamples threshold buf i start end =
     (if i < int (length buf) then
        (case readInt16LE buf i of
           Inl e \<Rightarrow> Some (Inl e)
         | Inr v \<Rightarrow>
            if v < threshold then
              truncateLoop maxSamples threshold buf (i + 2)
                (if end = None then i else start) (Some i)
            else
              (case end of
                 None \<Rightarrow> truncateLoop maxSamples threshold buf (i + 2) start None
               | Some e \<Rightarrow>
                  if e - start + 2 > maxSamples then
                    (let deleteCount = e - start - maxSamples + 2;
                         buf' = slice buf 0 start @ sliceFrom buf (start + deleteCount)
                     in truncateLoop maxSamples threshold buf' (i - deleteCount + 2) start None)
                  else truncateLoop maxSamples threshold buf (i + 2) start None))
      else Some (Inr buf))"

declare truncateLoop.simps [code]

definition truncateSilences :: "buffer \<Rightarrow> int \<Rightarrow> int \<Rightarrow> (error + buffer) option" where
  "truncateSilences buf maxSamples threshold = truncateLoop maxSamples threshold buf 0 0 None"

subsection \<open>Samples and silent runs\<close>

text \<open>
  The samples of a buffer, and the lengths (counted in samples) of its maximal runs of
  silent samples, in order. A sample is silent when its signed value is below the
  threshold, the test \<open>buf.readInt16LE(i) < threshold\<close> of the source.
\<close>

fun samples :: "buffer \<Rightarrow> int list" where
  "samples (lo # hi # rest) = int16LE lo hi # samples rest"
| "samples [] = []"
| "samples [x] = []"

fun runsFrom :: "int \<Rightarrow> nat \<Rightarrow> int list \<Rightarrow> nat list" where
  "runsFrom thr n [] = (if n = 0 then [] else [n])"
| "runsFrom thr n (v # vs) =
     (if v < thr then runsFrom thr (Suc n) vs
      else (if n = 0 then [] else [n]) @ runsFrom thr 0 vs)"

definition silentRuns :: "int \<Rightarrow> buffer \<Rightarrow> nat list" where
  "silentRuns thr buf = runsFrom thr 0 (samples buf)"

text \<open>
  What the loop computes, as a recursion over the unread part of the buffer: \<open>run\<close> holds
  the bytes of the silent run being read. A run that a louder sample ends keeps its last
  \<open>M\<close> bytes; a run that reaches the end of the buffer is kept whole.
\<close>

fun truncSpec :: "int \<Rightarrow> int \<Rightarrow> buffer \<Rightarrow> buffer \<Rightarrow> buffer" where
  "truncSpec M thr run (lo # hi # rest) =
     (if int16LE lo hi < thr then truncSpec M thr (run @ [lo, hi]) rest
      else drop (nat (int (length run) - M)) run @ lo # hi # truncSpec M thr [] rest)"
| "truncSpec M thr run [] = run"
| "truncSpec M thr run [x] = run @ [x]"

text \<open>
  \<open>interiorOK M thr n buf\<close>: reading \<open>buf\<close> with \<open>n\<close> bytes of silence already behind the
  cursor, every silent run that a louder sample ends is at most \<open>M\<close> bytes long.
\<close>

fun interiorOK :: "int \<Rightarrow> int \<Rightarrow> nat \<Rightarrow> buffer \<Rightarrow> bool" where
  "interiorOK M thr n (lo # hi # rest) =
     (if int16LE lo hi < thr then interiorOK M thr (n + 2) rest
      else int n \<le> M \<and> interiorOK M thr 0 rest)"
| "interiorOK M thr n _ = True"

text \<open>
  \<open>allSilent thr buf\<close>: the buffer is a whole number of samples, all of them silent.
\<close>

fun allSilent :: "int \<Rightarrow> buffer \<Rightarrow> bool" where
  "allSilent thr (lo # hi # rest) = (int16LE lo hi < thr \<and> allSilent thr rest)"
| "allSilent thr [] = True"
| "allSilent thr [x] = False"

subsection \<open>chunkBuffer\<close>

text \<open>
  The \<open>for\<close> loop of \<open>chunkBuffer\<close>, one call per iteration; the arguments after the
  parameters are the loop's variables \<open>buf\<close>, \<open>i\<close>, \<open>start\<close>, \<open>end\<close>, \<open>endMarks\<close> and
  \<open>bufs\<close>. After a cut the source sets \<open>i = 0\<close> and the loop adds 2 before it reads the
  next sample, so the call passes \<open>0 + 2\<close>. A silent run that is not longer than
  \<open>minSamples\<close> leaves \<open>end\<close> and \<open>start\<close> as they are. The \<open>throw\<close> is the result
  \<open>Inl ChunkingImpossible\<close>.
\<close>

partial_function (option) chunkLoop ::
  "int \<Rightarrow> int \<Rightarrow> int \<Rightarrow> buffer \<Rightarrow> int \<Rightarrow> int \<Rightarrow> int option \<Rightarrow> int list \<Rightarrow> buffer list
     \<Rightarrow> (error + buffer list) option" where
  "chunkLoop minSamples maxLength threshold buf i start end endMarks bufs =
     (if i < int (length buf) then
        (case readInt16LE buf i of
           Inl e \<Rightarrow> Some (Inl e)
         | Inr v \<Rightarrow>
            if v < threshold then
              chunkLoop minSamples maxLength threshold buf (i + 2)
                (if end = None then i else start) (Some i) endMarks bufs
            else
              (case end of
                 None \<Rightarrow> chunkLoop minSamples maxLength threshold buf (i + 2) start None endMarks bufs
               | Some e \<Rightarrow>
                  if e - start + 2 > minSamples then
                    (if i < maxLength then
                       chunkLoop minSamples maxLength threshold buf (i + 2) start None
                         (endMarks @ [i]) bufs
                     else if endMarks = [] then Some (Inl ChunkingImpossible)
                     else
                       chunkLoop minSamples maxLength threshold
                         (sliceFrom buf (last endMarks)) (0 + 2) 0 None []
                         (bufs @ [slice buf 0 (last endMarks)]))
                  else
                    chunkLoop minSamples maxLength threshold buf (i + 2) start (Some e)
                      endMarks bufs))
      else Some (Inr (bufs @ [buf])))"

declare chunkLoop.simps [code]

definition chunkBuffer :: "buffer \<Rightarrow> int \<Rightarrow> int \<Rightarrow> int \<Rightarrow> (error + buffer list) option" where
  "chunkBuffer buf minSamples maxLength threshold =
     chunkLoop minSamples maxLength threshold buf 0 0 None [] []"

section \<open>Request bodies\<close>

text \<open>
  The body of a request is parsed JSON. \<open>JUndefined\<close> is the value of a field that is
  absent. A number holds the value of the parsed double. An object is given by its own
  properties.
\<close>

datatype jsval =
    JUndefined | JNull | JBool bool | JNum rat | JStr string
  | JArr "jsval list" | JObj "(string \<times> jsval) list"

text \<open>\<open>v == null\<close>, the truth value of \<open>v\<close> in a condition, and \<open>a === b\<close> where \<open>b\<close> is a
  string constant or a value of the configuration: an array or an object of the body is
  identical to neither.\<close>

definition isNullish :: "jsval \<Rightarrow> bool" where
  "isNullish v = (v = JUndefined \<or> v = JNull)"

fun truthy :: "jsval \<Rightarrow> bool" where
  "truthy JUndefined = False"
| "truthy JNull = False"
| "truthy (JBool b) = b"
| "truthy (JNum r) = (r \<noteq> 0)"
| "truthy (JStr s) = (s \<noteq> [])"
| "truthy (JArr xs) = True"
| "truthy (JObj kvs) = True"

fun strictEq :: "jsval \<Rightarrow> jsval \<Rightarrow> bool" where
  "strictEq (JArr xs) b = False"
| "strictEq (JObj kvs) b = False"
| "strictEq a b = (a = b)"

text \<open>\<open>v.k\<close> for the field names the handler reads; a value that is not an object has
  none of them.\<close>

fun getField :: "jsval \<Rightarrow> string \<Rightarrow> jsval" where
  "getField (JObj kvs) k = (case map_of kvs k of Some v \<Rightarrow> v | None \<Rightarrow> JUndefined)"
| "getField v k = JUndefined"

text \<open>
  \<open>Number.isInteger(v)\<close>, and the comparisons \<open>v >= 0\<close> and \<open>v < 0\<close> on a number: the
  source makes them only behind \<open>Number.isInteger(v)\<close>, which holds of numbers alone.
\<close>

fun isInteger :: "jsval \<Rightarrow> bool" where
  "isInteger (JNum r) = (r = of_int (floor r))"
| "isInteger v = False"

fun geZero :: "jsval \<Rightarrow> bool" where
  "geZero (JNum r) = (r \<ge> 0)"
| "geZero v = False"

fun ltZero :: "jsval \<Rightarrow> bool" where
  "ltZero (JNum r) = (r < 0)"
| "ltZero v = False"

text \<open>
  What the handler takes from its libraries and its host: the decimal form of a number and
  the number a string denotes (both of the language), the SHA-1 digest in hexadecimal,
  the address of the host and \<open>path.basename\<close>.
\<close>

record env =
  numToString :: "rat \<Rightarrow> string"
  strToNumber :: "string \<Rightarrow> rat option"
  sha1hex :: "string \<Rightarrow> string"
  ipAddress :: string
  basename :: "string \<Rightarrow> string"

text \<open>
  The string a value becomes in a template literal, in \<open>+\<close> with a string and as a
  property key. The conversion of an object calls its \<open>toString\<close>: an object of the body
  that has a field named \<open>toString\<close> has no callable one (a parsed value is never a
  function), and neither does what \<open>valueOf\<close> gives in its place, so the conversion
  raises a type error; every other object becomes \<open>[object Object]\<close>. An array becomes
  its elements joined with commas, \<open>null\<close> and absent elements as the empty string, and
  raises when an element does.
\<close>

fun joinComma :: "(error + string) list \<Rightarrow> error + string" where
  "joinComma [] = Inr []"
| "joinComma [r] = r"
| "joinComma (r # rs) =
     (case r of
        Inl e \<Rightarrow> Inl e
      | Inr s \<Rightarrow> (case joinComma rs of Inl e \<Rightarrow> Inl e | Inr t \<Rightarrow> Inr (s @ '','' @ t)))"

fun toStr :: "env \<Rightarrow> jsval \<Rightarrow> error + string" where
  "toStr E JUndefined = Inr ''undefined''"
| "toStr E JNull = Inr ''null''"
| "toStr E (JBool b) = Inr (if b then ''true'' else ''false'')"
| "toStr E (JNum r) = Inr (numToString E r)"
| "toStr E (JStr s) = Inr s"
| "toStr E (JArr xs) = joinComma (map (\<lambda>x. if isNullish x then Inr [] else toStr E x) xs)"
| "toStr E (JObj kvs) =
     (if map_of kvs ''toString'' = None then Inr ''[object Object]'' else Inl TypeError)"

text \<open>
  The number a value becomes in arithmetic (\<open>None\<close> is \<open>NaN\<close>): an array or an object
  goes through its string.
\<close>

fun toNumber :: "env \<Rightarrow> jsval \<Rightarrow> error + rat option" where
  "toNumber E JUndefined = Inr None"
| "toNumber E JNull = Inr (Some 0)"
| "toNumber E (JBool b) = Inr (Some (if b then 1 else 0))"
| "toNumber E (JNum r) = Inr (Some r)"
| "toNumber E (JStr s) = Inr (strToNumber E s)"
| "toNumber E v = (case toStr E v of Inl e \<Rightarrow> Inl e | Inr s \<Rightarrow> Inr (strToNumber E s))"

section \<open>The relay dispatcher\<close>

text \<open>
  The configuration, as \<open>config.json\<close> lays it out. \<open>cfgUsers\<close> is the lookup
  \<open>config.users[user]\<close>, \<open>None\<close> where it gives nothing; the sound tables likewise. The
  port of the static server is held in the form it takes in a URL.
\<close>

record relayCfg =
  relayOn :: bool
  relayRoute :: "string option"

record sound =
  soundPath :: string
  soundFormat :: jsval
  soundContentType :: jsval

record userCfg =
  userRelayKey :: jsval
  chromecastFriendlyName :: jsval

record appConfig =
  cfgBroadcast :: relayCfg
  cfgBroadcastAudio :: relayCfg
  cfgBroadcastAudioSounds :: "string \<rightharpoonup> sound"
  cfgCustom :: relayCfg
  cfgChromecastAudio :: relayCfg
  cfgChromecastAudioSounds :: "string \<rightharpoonup> sound"
  cfgChromecastTTS :: relayCfg
  cfgTTSCachePath :: string
  cfgTTSDefaultLanguage :: jsval
  cfgTTSDefaultGender :: jsval
  cfgChromecastURL :: relayCfg
  cfgChromecastControl :: relayCfg
  cfgStaticPort :: string
  cfgStaticRoute :: string
  cfgUsers :: "string \<rightharpoonup> userCfg"

text \<open>A request that the router has matched with the composite route: its path and its
  parsed body.\<close>

record request =
  reqPath :: string
  reqBody :: jsval

text \<open>
  What the handler hands on: a downstream action scheduled with \<open>setTimeout\<close> (the delay
  in milliseconds, \<open>None\<close> for \<open>NaN\<close>), or a call of the speech synthesis client for the
  artifact at a path. The response is a status with the \<open>result\<close> string, or \<open>Threw\<close> when
  the handler raises before it answers.
\<close>

record ctl =
  ctlType :: jsval
  ctlCurrentTime :: jsval

record ttsRequest =
  ttsText :: jsval
  ttsVoice :: jsval

datatype action =
    SendBroadcastAudio string jsval jsval
  | Cast jsval jsval jsval
  | Control jsval ctl
  | SendTextInput jsval jsval jsval

datatype effect =
    SetTimeout "rat option" action
  | SynthesizeSpeech ttsRequest string

datatype response = Respond nat string | Threw

text \<open>\<open>relayRoutes[k]\<close>, filled at start-up for the relays that are on, and the test
  \<open>relayRoutes[k] != null && req.path === config.relays.k.route\<close>.\<close>

definition relayRoutes :: "relayCfg \<Rightarrow> string option" where
  "relayRoutes r = (if relayOn r then relayRoute r else None)"

definition onRoute :: "relayCfg \<Rightarrow> request \<Rightarrow> bool" where
  "onRoute r req = (relayRoutes r \<noteq> None \<and> Some (reqPath req) = relayRoute r)"

text \<open>
  \<open>delay == null ? 0 : delay * 1000\<close>, and the two statements that end an accepting
  branch: \<open>setTimeout\<close> with that delay, then the answer. The delay is computed when
  \<open>setTimeout\<close> is called; if that raises, the effects made before it stand and no answer
  is sent.
\<close>

definition timeoutMs :: "env \<Rightarrow> jsval \<Rightarrow> error + rat option" where
  "timeoutMs E delay =
     (if isNullish delay then Inr (Some 0)
      else (case toNumber E delay of
              Inl e \<Rightarrow> Inl e
            | Inr n \<Rightarrow> Inr (map_option (\<lambda>d. d * 1000) n)))"

definition schedule ::
  "env \<Rightarrow> jsval \<Rightarrow> effect list \<Rightarrow> action \<Rightarrow> response \<Rightarrow> response \<times> effect list" where
  "schedule E delay before act answer =
     (case timeoutMs E delay of
        Inl e \<Rightarrow> (Threw, before)
      | Inr ms \<Rightarrow> (answer, before @ [SetTimeout ms act]))"

definition PLAY :: jsval where "PLAY = JStr ''PLAY''"
definition PAUSE :: jsval where "PAUSE = JStr ''PAUSE''"
definition STOP :: jsval where "STOP = JStr ''STOP''"
definition SEEK :: jsval where "SEEK = JStr ''SEEK''"

definition AUDIO_OUT_LINEAR16 :: jsval where "AUDIO_OUT_LINEAR16 = JStr ''LINEAR16''"

text \<open>
  The text-to-speech branch: the voice of the request or the configured default, the voice
  descriptor, the digest of the command followed by the descriptor, and the path of the
  cached artifact. Each is an error when a conversion to a string raises.
\<close>

definition ttsVoiceOf :: "appConfig \<Rightarrow> jsval \<Rightarrow> jsval" where
  "ttsVoiceOf cfg body =
     (if truthy (getField body ''voice'') then getField body ''voice''
      else JObj [(''languageCode'', cfgTTSDefaultLanguage cfg),
                 (''ssmlGender'', cfgTTSDefaultGender cfg)])"

definition voiceString :: "env \<Rightarrow> jsval \<Rightarrow> error + string" where
  "voiceString E voice =
     (case toStr E (getField voice ''languageCode'') of
        Inl e \<Rightarrow> Inl e
      | Inr l \<Rightarrow>
         (case toStr E (getField voice ''ssmlGender'') of
            Inl e \<Rightarrow> Inl e
          | Inr g \<Rightarrow>
             (case toStr E (getField voice ''name'') of
                Inl e \<Rightarrow> Inl e
              | Inr n \<Rightarrow> Inr (l @ ''_'' @ g @ ''_'' @ n))))"

definition encodedCommand :: "env \<Rightarrow> appConfig \<Rightarrow> jsval \<Rightarrow> error + string" where
  "encodedCommand E cfg body =
     (case voiceString E (ttsVoiceOf cfg body) of
        Inl e \<Rightarrow> Inl e
      | Inr v \<Rightarrow>
         (case toStr E (getField body ''command'') of
            Inl e \<Rightarrow> Inl e
          | Inr c \<Rightarrow> Inr (sha1hex E (c @ v))))"

definition ttsArtifactPath :: "env \<Rightarrow> appConfig \<Rightarrow> jsval \<Rightarrow> error + string" where
  "ttsArtifactPath E cfg body =
     (case encodedCommand E cfg body of
        Inl e \<Rightarrow> Inl e
      | Inr d \<Rightarrow> Inr (cfgTTSCachePath cfg @ ''/'' @ d @ ''.mp3''))"

text \<open>The files of the cache directory, and \<open>fs.existsSync\<close>.\<close>

type_synonym filesystem = "string \<rightharpoonup> buffer"

definition existsSync :: "filesystem \<Rightarrow> string \<Rightarrow> bool" where
  "existsSync fs p = (fs p \<noteq> None)"

text \<open>
  The handler of \<open>router.post\<close>, in three parts.

  \<open>dispatch\<close> is the part inside the check of the key: the chain of route tests, in the
  order of the source. Its arguments \<open>c\<close> and \<open>us\<close> are the strings that \<open>command\<close> and
  \<open>user\<close> have become in the log line before the check; every later template literal and
  property key converts the same values to the same strings. In the audio broadcast
  branch, a sound whose format is not LINEAR16 makes the handler raise: the message it
  builds reads \<open>config.sounds\<close>, which the configuration does not have. The URL branch
  logs \<open>contentType\<close>, and the text-to-speech branch builds the voice descriptor, before
  anything is scheduled.

  \<open>checkKey\<close> is the branch taken when no required field is missing: the log line
  \<open>Received request\<close>, which converts \<open>command\<close>, \<open>user\<close> and \<open>delayInSecs\<close> to strings,
  then the check of the key.

  \<open>routerPost\<close> is the whole handler: with a required field missing it redacts a key
  that is there, logs \<open>command\<close>, \<open>user\<close> and the key, and answers 400.
\<close>

definition dispatch ::
  "env \<Rightarrow> appConfig \<Rightarrow> filesystem \<Rightarrow> request \<Rightarrow> userCfg \<Rightarrow> string \<Rightarrow> string
     \<Rightarrow> response \<times> effect list" where
  "dispatch E cfg fs req u c us =
    (let body = reqBody req;
         command = getField body ''command'';
         user = getField body ''user'';
         delay = getField body ''delayInSecs''
     in
     if onRoute (cfgBroadcastAudio cfg) req then
       (case cfgBroadcastAudioSounds cfg c of
          None \<Rightarrow> (Respond 500 ''Server error.'', [])
        | Some entry \<Rightarrow>
           if \<not> strictEq (soundFormat entry) AUDIO_OUT_LINEAR16 then (Threw, [])
           else
             schedule E delay []
               (SendBroadcastAudio (soundPath entry) user (soundFormat entry))
               (Respond 200 (''Played '' @ c @ '' via broadcast.'')))
     else if onRoute (cfgChromecastTTS cfg) req then
       (case encodedCommand E cfg body of
          Inl e \<Rightarrow> (Threw, [])
        | Inr digest \<Rightarrow>
           (let voice = ttsVoiceOf cfg body;
                artifact = cfgTTSCachePath cfg @ ''/'' @ digest @ ''.mp3'';
                synth = (if existsSync fs artifact then []
                         else [SynthesizeSpeech \<lparr>ttsText = command, ttsVoice = voice\<rparr> artifact])
            in schedule E delay synth
                 (Cast (chromecastFriendlyName u)
                    (JStr (''http://'' @ ipAddress E @ '':'' @ cfgStaticPort cfg
                           @ cfgStaticRoute cfg @ ''/'' @ digest @ ''.mp3''))
                    (JStr ''audio/mp3''))
                 (Respond 200 (''Played '' @ c @ '' via Chromecast.''))))
     else if onRoute (cfgChromecastAudio cfg) req then
       (case cfgChromecastAudioSounds cfg c of
          None \<Rightarrow> (Respond 500 ''Server error.'', [])
        | Some entry \<Rightarrow>
           schedule E delay []
             (Cast (chromecastFriendlyName u)
                (JStr (''http://'' @ ipAddress E @ '':'' @ cfgStaticPort cfg
                       @ cfgStaticRoute cfg @ ''/'' @ basename E (soundPath entry)))
                (soundContentType entry))
             (Respond 200 (''Played '' @ c @ '' via Chromecast.'')))
     else if onRoute (cfgChromecastURL cfg) req then
       (if \<not> truthy (getField body ''contentType'') then
          (Respond 500 ''Server error, missing contentType.'', [])
        else
          (case toStr E (getField body ''contentType'') of
             Inl e \<Rightarrow> (Threw, [])
           | Inr t \<Rightarrow>
              schedule E delay []
                (Cast (chromecastFriendlyName u) command (getField body ''contentType''))
                (Respond 200 (''Played '' @ c @ '' via Chromecast.''))))
     else if onRoute (cfgChromecastControl cfg) req then
       (if truthy command \<and>
           (strictEq command PLAY \<or> strictEq command PAUSE \<or> strictEq command STOP \<or>
            (strictEq command SEEK \<and>
             truthy (getField body ''currentTime'') \<and>
             isInteger (getField body ''currentTime'') \<and>
             geZero (getField body ''currentTime'')))
        then
          schedule E delay []
            (Control (chromecastFriendlyName u)
               \<lparr>ctlType = command,
                ctlCurrentTime = (if strictEq command SEEK then getField body ''currentTime''
                                  else JUndefined)\<rparr>)
            (Respond 200 (''Send control request '' @ c @ '' via Chromecast.''))
        else (Respond 500 ''Malfored request.'', []))
     else
       (let broadcast = onRoute (cfgBroadcast cfg) req;
            command' = (if broadcast then JStr (''broadcast '' @ c) else command);
            c' = (if broadcast then ''broadcast '' @ c else c)
        in schedule E delay []
             (SendTextInput command' user (getField body ''broadcastAudioResponse''))
             (Respond 200 (''Executed '' @ c'))))"

definition checkKey ::
  "env \<Rightarrow> appConfig \<Rightarrow> filesystem \<Rightarrow> request \<Rightarrow> response \<times> effect list" where
  "checkKey E cfg fs req =
    (let body = reqBody req;
         command = getField body ''command'';
         user = getField body ''user'';
         relayKey = getField body ''relayKey'';
         delay = getField body ''delayInSecs''
     in
     case toStr E command of
       Inl e \<Rightarrow> (Threw, [])
     | Inr c \<Rightarrow>
        (case toStr E user of
           Inl e \<Rightarrow> (Threw, [])
         | Inr us \<Rightarrow>
            (case toStr E delay of
               Inl e \<Rightarrow> (Threw, [])
             | Inr d \<Rightarrow>
                (case cfgUsers cfg us of
                   None \<Rightarrow> (Respond 403 ''Access denied.'', [])
                 | Some u \<Rightarrow>
                    if strictEq relayKey (userRelayKey u) then dispatch E cfg fs req u c us
                    else (Respond 403 ''Access denied.'', [])))))"

definition routerPost ::
  "env \<Rightarrow> appConfig \<Rightarrow> filesystem \<Rightarrow> request \<Rightarrow> response \<times> effect list" where
  "routerPost E cfg fs req =
    (let body = reqBody req;
         command = getField body ''command'';
         user = getField body ''user'';
         relayKey = getField body ''relayKey''
     in
     if isNullish command \<or> isNullish user \<or> isNullish relayKey then
       (let relayKey' = (if truthy relayKey then JStr ''[Redacted]'' else relayKey)
        in case toStr E command of
             Inl e \<Rightarrow> (Threw, [])
           | Inr c \<Rightarrow>
              (case toStr E user of
                 Inl e \<Rightarrow> (Threw, [])
               | Inr us \<Rightarrow>
                  (case toStr E relayKey' of
                     Inl e \<Rightarrow> (Threw, [])
                   | Inr k \<Rightarrow> (Respond 400 ''Malformed request'', []))))
     else checkKey E cfg fs req)"

text \<open>
  The callback of \<open>synthesizeSpeech\<close>: on an error nothing is written; otherwise the audio
  is written at the path of the artifact.
\<close>

datatype synthOutcome = SynthError | SynthAudio buffer

definition synthesizeCallback :: "synthOutcome \<Rightarrow> string \<Rightarrow> filesystem \<Rightarrow> filesystem" where
  "synthesizeCallback outcome artifact fs =
     (case outcome of SynthError \<Rightarrow> fs | SynthAudio audioContent \<Rightarrow> fs(artifact \<mapsto> audioContent))"

text \<open>
  \<open>control\<close> of the cast module: the calls that reach the player. \<open>chromecasts\<close> and
  \<open>players\<close> tell which service names are known and which have a player; the service
  name is converted to the property key it is looked up by.
\<close>

datatype playerCall = PlayerPlay | PlayerPause | PlayerStop | PlayerSeek jsval

definition control ::
  "env \<Rightarrow> (string \<Rightarrow> bool) \<Rightarrow> (string \<Rightarrow> bool) \<Rightarrow> jsval \<Rightarrow> ctl
     \<Rightarrow> error + playerCall list" where
  "control E chromecasts players serviceName commandObj =
     (case toStr E serviceName of
        Inl e \<Rightarrow> Inl e
      | Inr name \<Rightarrow>
         Inr (if \<not> chromecasts name then []
              else if \<not> players name then []
              else if strictEq (ctlType commandObj) PLAY then [PlayerPlay]
              else if strictEq (ctlType commandObj) PAUSE then [PlayerPause]
              else if strictEq (ctlType commandObj) STOP then [PlayerStop]
              else if strictEq (ctlType commandObj) SEEK then
                (if \<not> truthy (ctlCurrentTime commandObj)
                    \<or> \<not> isInteger (ctlCurrentTime commandObj)
                    \<or> ltZero (ctlCurrentTime commandObj)
                 then [] else [PlayerSeek (ctlCurrentTime commandObj)])
              else []))"

text \<open>
  \<open>reachesTTS\<close>: the request has its required fields, passes the log line and the check
  of the key, and the chain of route tests takes the text-to-speech branch.
\<close>

definition reachesTTS :: "env \<Rightarrow> appConfig \<Rightarrow> request \<Rightarrow> bool" where
  "reachesTTS E cfg req =
     (let body = reqBody req
      in \<not> isNullish (getField body ''command'') \<and> \<not> isNullish (getField body ''user'')
         \<and> \<not> isNullish (getField body ''relayKey'')
         \<and> (case toStr E (getField body ''command'') of
                Inl e \<Rightarrow> False
              | Inr c \<Rightarrow>
                 (case toStr E (getField body ''user'') of
                    Inl e \<Rightarrow> False
                  | Inr us \<Rightarrow>
                     (case toStr E (getField body ''delayInSecs'') of
                        Inl e \<Rightarrow> False
                      | Inr d \<Rightarrow>
                         (case cfgUsers cfg us of
                            None \<Rightarrow> False
                          | Some u \<Rightarrow> strictEq (getField body ''relayKey'') (userRelayKey u)))))
         \<and> \<not> onRoute (cfgBroadcastAudio cfg) req \<and> onRoute (cfgChromecastTTS cfg) req)"

text \<open>
  Two requests in succession: the synthesis calls of the first are completed, each with the
  outcome \<open>synth\<close> gives, before the second is handled. The result is the effects of the
  first and of the second request.
\<close>

fun isSynthesize :: "effect \<Rightarrow> bool" where
  "isSynthesize (SynthesizeSpeech r p) = True"
| "isSynthesize (SetTimeout d a) = False"

definition synthCalls :: "effect list \<Rightarrow> nat" where
  "synthCalls effs = length (filter isSynthesize effs)"

fun completeEffect :: "(ttsRequest \<Rightarrow> synthOutcome) \<Rightarrow> effect \<Rightarrow> filesystem \<Rightarrow> filesystem" where
  "completeEffect synth (SynthesizeSpeech r p) fs = synthesizeCallback (synth r) p fs"
| "completeEffect synth (SetTimeout d a) fs = fs"

definition twoRequests ::
  "env \<Rightarrow> appConfig \<Rightarrow> (ttsRequest \<Rightarrow> synthOutcome) \<Rightarrow> filesystem \<Rightarrow> request \<Rightarrow> request
     \<Rightarrow> effect list \<times> effect list" where
  "twoRequests E cfg synth fs r1 r2 =
     (let effs1 = snd (routerPost E cfg fs r1);
          fs1 = fold (completeEffect synth) effs1 fs;
          effs2 = snd (routerPost E cfg fs1 r2)
      in (effs1, effs2))"

text \<open>
  A host and a configuration to run the handler on: the sample configuration, with the
  route of the cast control relay written with its leading slash.
\<close>

definition exampleEnv :: env where
  "exampleEnv = \<lparr>numToString = (\<lambda>r. ''0''), strToNumber = (\<lambda>s. None),
     sha1hex = (\<lambda>s. s), ipAddress = ''192.168.0.2'', basename = (\<lambda>p. p)\<rparr>"

definition exampleConfig :: appConfig where
  "exampleConfig = \<lparr>
     cfgBroadcast = \<lparr>relayOn = True, relayRoute = Some ''/broadcast''\<rparr>,
     cfgBroadcastAudio = \<lparr>relayOn = True, relayRoute = Some ''/broadcastAudio''\<rparr>,
     cfgBroadcastAudioSounds =
       [''noisy'' \<mapsto> \<lparr>soundPath = ''audio/foo.lpcm16'', soundFormat = JStr ''LINEAR16'',
                       soundContentType = JUndefined\<rparr>],
     cfgCustom = \<lparr>relayOn = True, relayRoute = Some ''/custom''\<rparr>,
     cfgChromecastAudio = \<lparr>relayOn = True, relayRoute = Some ''/chromecastAudio''\<rparr>,
     cfgChromecastAudioSounds =
       [''noisy'' \<mapsto> \<lparr>soundPath = ''audio/bar.mp3'', soundFormat = JUndefined,
                       soundContentType = JStr ''audio/mp3''\<rparr>],
     cfgChromecastTTS = \<lparr>relayOn = True, relayRoute = Some ''/chromecastTTS''\<rparr>,
     cfgTTSCachePath = ''audio'',
     cfgTTSDefaultLanguage = JStr ''en-US'',
     cfgTTSDefaultGender = JStr ''NEUTRAL'',
     cfgChromecastURL = \<lparr>relayOn = True, relayRoute = Some ''/chromecastURL''\<rparr>,
     cfgChromecastControl = \<lparr>relayOn = True, relayRoute = Some ''/chromecastControl''\<rparr>,
     cfgStaticPort = ''25000'',
     cfgStaticRoute = ''/media'',
     cfgUsers =
       [''public'' \<mapsto> \<lparr>userRelayKey = JStr ''r3pl4ac3th153x4mpl3n0nc3'',
                        chromecastFriendlyName = JStr ''public''\<rparr>,
        ''bedrooms'' \<mapsto> \<lparr>userRelayKey = JStr ''r3pl4ac3th153x4mpl3n0nc3'',
                          chromecastFriendlyName = JStr ''bedrooms''\<rparr>,
        ''global'' \<mapsto> \<lparr>userRelayKey = JStr ''r3pl4ac3th153x4mpl3n0nc3'',
                        chromecastFriendlyName = JStr ''global''\<rparr>]\<rparr>"

section \<open>The conversation session\<close>

text \<open>
  The last block of \<open>startConversation\<close>: what is written to the conversation when a
  buffer is present and the conversation is continued. \<open>silence\<close> is the
  \<open>Int16Array(32000)\<close> of the source, all zero.
\<close>

datatype written = WriteBuffer buffer | WriteInt16Array "int list"

definition silence :: "int list" where
  "silence = replicate 32000 0"

function sendFrames :: "buffer \<Rightarrow> int \<Rightarrow> written list" where
  "sendFrames buf i =
     (if i < int (length buf) then
        WriteBuffer (slice buf i (if i + 16000 < int (length buf) then i + 16000
                                  else int (length buf)))
          # sendFrames buf (i + 16000)
      else [])"
  by pat_completeness auto
termination
  by (relation "measure (\<lambda>(buf, i). nat (int (length buf) - i))") auto

declare sendFrames.simps [simp del]

definition startConversation_writes :: "buffer option \<Rightarrow> bool \<Rightarrow> written list" where
  "startConversation_writes buf continued =
     (case buf of
        None \<Rightarrow> []
      | Some b \<Rightarrow> if continued then sendFrames b 0 @ [WriteInt16Array silence] else [])"

fun writtenBytes :: "written \<Rightarrow> buffer" where
  "writtenBytes (WriteBuffer b) = b"
| "writtenBytes (WriteInt16Array xs) = []"

section \<open>Properties of the audio buffer functions\<close>

subsection \<open>Reading and slicing\<close>

lemma readInt16LE_at:
  "readInt16LE (xs @ lo # hi # ys) (int (length xs)) = Inr (int16LE lo hi)"
  by (simp add: readInt16LE_def nth_append nat_add_distrib)

lemma slice_prefix: "slice (xs @ ys) 0 (int (length xs)) = xs"
  by (simp add: slice_def clampIndex_def)

lemma sliceFrom_drop: "0 \<le> k \<Longrightarrow> sliceFrom buf k = drop (nat k) buf"
  by (simp add: sliceFrom_def clampIndex_def min_def)

subsection \<open>The recursion that the truncation loop computes\<close>

lemma truncSpec_length: "length (truncSpec M thr run rest) \<le> length run + length rest"
  by (induction M thr run rest rule: truncSpec.induct) auto

lemma interiorOK_unchanged:
  "interiorOK M thr (length run) rest \<Longrightarrow> truncSpec M thr run rest = run @ rest"
  by (induction M thr run rest rule: truncSpec.induct) auto

lemma allSilent_even: "allSilent thr xs \<Longrightarrow> even (length xs)"
  by (induction thr xs rule: allSilent.induct) auto

lemma allSilent_append:
  "allSilent thr xs \<Longrightarrow> allSilent thr (xs @ ys) = allSilent thr ys"
  by (induction thr xs rule: allSilent.induct) auto

lemma allSilent_drop:
  "allSilent thr xs \<Longrightarrow> even k \<Longrightarrow> allSilent thr (drop k xs)"
proof (induction thr xs arbitrary: k rule: allSilent.induct)
  case (1 thr lo hi rest)
  show ?case
  proof (cases k)
    case 0
    then show ?thesis using 1 by simp
  next
    case (Suc j)
    then obtain m where "k = Suc (Suc m)" using "1.prems"(2) by (cases j) auto
    then show ?thesis using 1 by simp
  qed
qed auto

lemma interiorOK_silent_prefix:
  "allSilent thr xs \<Longrightarrow> interiorOK M thr n (xs @ ys) = interiorOK M thr (n + length xs) ys"
  by (induction thr xs arbitrary: n rule: allSilent.induct) (auto simp: add.commute add.left_commute)

lemma truncSpec_interior:
  "0 \<le> M \<Longrightarrow> even M \<Longrightarrow> allSilent thr run \<Longrightarrow> even (length rest) \<Longrightarrow>
     interiorOK M thr 0 (truncSpec M thr run rest)"
proof (induction M thr run rest rule: truncSpec.induct)
  case (1 M thr run lo hi rest)
  show ?case
  proof (cases "int16LE lo hi < thr")
    case True
    then show ?thesis using 1 by (simp add: allSilent_append)
  next
    case False
    let ?k = "nat (int (length run) - M)"
    have ev: "even ?k" using "1.prems" allSilent_even [of thr run]
      by (cases "int (length run) \<le> M") (auto simp: even_nat_iff)
    have sil: "allSilent thr (drop ?k run)" using "1.prems" ev by (simp add: allSilent_drop)
    have len: "int (length (drop ?k run)) \<le> M" using "1.prems"(1) by auto
    have "interiorOK M thr 0 (truncSpec M thr [] rest)" using 1 False by simp
    then show ?thesis using False len
      by (simp add: interiorOK_silent_prefix [OF sil])
  qed
next
  case (2 M thr run)
  then show ?case using interiorOK_silent_prefix [of thr run M 0 "[]"] by simp
next
  case (3 M thr run v)
  then show ?case by simp
qed

lemma truncSpec_idem:
  assumes "0 \<le> M" "even M" "even (length buf)"
  shows "truncSpec M thr [] (truncSpec M thr [] buf) = truncSpec M thr [] buf"
  using interiorOK_unchanged [of M thr "[]" "truncSpec M thr [] buf"] truncSpec_interior [of M thr "[]" buf] assms
  by simp

lemma runs_interiorOK:
  "0 \<le> M \<Longrightarrow> \<forall>r \<in> set (runsFrom thr n (samples rest)). 2 * int r \<le> M \<Longrightarrow>
     interiorOK M thr (2 * n) rest"
proof (induction rest arbitrary: n rule: samples.induct)
  case (1 lo hi rest)
  show ?case
  proof (cases "int16LE lo hi < thr")
    case True
    then have "\<forall>r \<in> set (runsFrom thr (Suc n) (samples rest)). 2 * int r \<le> M"
      using "1.prems"(2) by simp
    then have "interiorOK M thr (2 * Suc n) rest" by (rule "1.IH" [OF "1.prems"(1)])
    then show ?thesis using True by simp
  next
    case False
    then have a: "\<forall>r \<in> set (runsFrom thr 0 (samples rest)). 2 * int r \<le> M"
      and b: "n \<noteq> 0 \<longrightarrow> 2 * int n \<le> M"
      using "1.prems"(2) by (auto split: if_splits)
    have "interiorOK M thr (2 * 0) rest" using a by (rule "1.IH" [OF "1.prems"(1)])
    then show ?thesis using False b "1.prems"(1) by (cases "n = 0") simp_all
  qed
qed simp_all

lemma allSilent_truncSpec: "allSilent thr rest \<Longrightarrow> truncSpec M thr run rest = run @ rest"
  by (induction M thr run rest rule: truncSpec.induct) auto

lemma allSilent_samples: "even (length buf) \<Longrightarrow> (\<forall>v \<in> set (samples buf). v < thr) \<Longrightarrow> allSilent thr buf"
  by (induction buf rule: samples.induct) auto


subsection \<open>The loop of truncateSilences computes truncSpec\<close>

text \<open>
  The invariant of the loop: the buffer is \<open>pre @ run @ rest\<close>, where \<open>pre\<close> is final,
  \<open>run\<close> is the silent run being read (\<open>start\<close> its first offset, \<open>end\<close> its last sample)
  and \<open>rest\<close> is unread. From such a state the loop ends and returns \<open>pre\<close> followed by
  \<open>truncSpec M thr run rest\<close>.
\<close>

lemma truncateLoop_spec:
  assumes "0 \<le> M" and "even (length rest)"
    and "(run = [] \<and> end = None) \<or>
         (run \<noteq> [] \<and> end = Some (int (length pre) + int (length run) - 2) \<and> start = int (length pre))"
  shows "truncateLoop M thr (pre @ run @ rest) (int (length pre) + int (length run)) start end
           = Some (Inr (pre @ truncSpec M thr run rest))"
  using assms
proof (induction M thr run rest arbitrary: pre start "end" rule: truncSpec.induct)
  case (1 M thr run lo hi rest)
  let ?buf = "pre @ run @ lo # hi # rest"
  let ?i = "int (length pre) + int (length run)"
  have rd: "readInt16LE ?buf ?i = Inr (int16LE lo hi)"
    using readInt16LE_at [of "pre @ run" lo hi rest] by simp
  have lt: "?i < int (length ?buf)" by simp
  have ev: "even (length rest)" using "1.prems"(2) by simp
  show ?case
  proof (cases "int16LE lo hi < thr")
    case True
    have st: "(if end = None then ?i else start) = int (length pre)"
      using "1.prems"(3) by auto
    have "truncateLoop M thr (pre @ (run @ [lo, hi]) @ rest)
            (int (length pre) + int (length (run @ [lo, hi]))) (int (length pre)) (Some ?i)
          = Some (Inr (pre @ truncSpec M thr (run @ [lo, hi]) rest))"
      by (rule "1.IH"(1) [OF True "1.prems"(1) ev]) simp
    then show ?thesis
      using True rd lt st by (subst truncateLoop.simps) (simp add: add.commute add.left_commute)
  next
    case False
    show ?thesis
    proof (cases "end")
      case None
      then have run: "run = []" using "1.prems"(3) by auto
      have "truncateLoop M thr ((pre @ [lo, hi]) @ [] @ rest)
              (int (length (pre @ [lo, hi])) + int (length ([]::buffer))) start None
            = Some (Inr ((pre @ [lo, hi]) @ truncSpec M thr [] rest))"
        by (rule "1.IH"(2) [OF False "1.prems"(1) ev]) simp
      then show ?thesis
        using False rd lt None run by (subst truncateLoop.simps) (simp add: add.commute add.left_commute)
    next
      case (Some e)
      then have run: "run \<noteq> []" and e: "e = ?i - 2" and start: "start = int (length pre)"
        using "1.prems"(3) by auto
      show ?thesis
      proof (cases "int (length run) > M")
        case True
        define d where "d = int (length run) - M"
        have d: "0 < d" "d \<le> int (length run)" using True "1.prems"(1) by (simp_all add: d_def)
        have sl: "slice ?buf 0 start = pre" unfolding start by (rule slice_prefix)
        have sf: "sliceFrom ?buf (start + d) = drop (nat d) run @ lo # hi # rest"
          using d by (simp add: sliceFrom_drop start nat_add_distrib)
        have "truncateLoop M thr ((pre @ drop (nat d) run @ [lo, hi]) @ [] @ rest)
                (int (length (pre @ drop (nat d) run @ [lo, hi])) + int (length ([]::buffer))) start None
              = Some (Inr ((pre @ drop (nat d) run @ [lo, hi]) @ truncSpec M thr [] rest))"
          by (rule "1.IH"(2) [OF False "1.prems"(1) ev]) simp
        moreover have "int (length (pre @ drop (nat d) run @ [lo, hi])) + int (length ([]::buffer))
                = ?i - d + 2" using d by (simp add: d_def)
        moreover have "(pre @ drop (nat d) run @ [lo, hi]) @ [] @ rest = pre @ drop (nat d) run @ lo # hi # rest"
          by simp
        moreover have "(pre @ drop (nat d) run @ [lo, hi]) @ truncSpec M thr [] rest
              = pre @ drop (nat d) run @ lo # hi # truncSpec M thr [] rest" by simp
        ultimately have rec: "truncateLoop M thr (pre @ drop (nat d) run @ lo # hi # rest) (?i - d + 2) start None
              = Some (Inr (pre @ drop (nat d) run @ lo # hi # truncSpec M thr [] rest))"
          by (simp only:)
        have dc: "e - start - M + 2 = d" "e - start + 2 > M" using True by (simp_all add: e start d_def)
        have sp: "truncSpec M thr run (lo # hi # rest) = drop (nat d) run @ lo # hi # truncSpec M thr [] rest"
          using False by (simp add: d_def)
        have "truncateLoop M thr ?buf ?i start end
               = truncateLoop M thr (slice ?buf 0 start @ sliceFrom ?buf (start + d)) (?i - d + 2) start None"
          using False rd lt Some dc by (subst truncateLoop.simps) (simp add: Let_def)
        then show ?thesis by (simp only: sl sf rec sp)
      next
        case False
        have "truncateLoop M thr ((pre @ run @ [lo, hi]) @ [] @ rest)
                (int (length (pre @ run @ [lo, hi])) + int (length ([]::buffer))) start None
              = Some (Inr ((pre @ run @ [lo, hi]) @ truncSpec M thr [] rest))"
          by (rule "1.IH"(2) [OF \<open>\<not> int16LE lo hi < thr\<close> "1.prems"(1) ev]) simp
        moreover have "int (length (pre @ run @ [lo, hi])) + int (length ([]::buffer)) = ?i + 2" by simp
        moreover have "(pre @ run @ [lo, hi]) @ [] @ rest = ?buf" by simp
        moreover have "(pre @ run @ [lo, hi]) @ truncSpec M thr [] rest
              = pre @ run @ lo # hi # truncSpec M thr [] rest" by simp
        ultimately have rec: "truncateLoop M thr ?buf (?i + 2) start None
              = Some (Inr (pre @ run @ lo # hi # truncSpec M thr [] rest))"
          by (simp only:)
        have dc: "\<not> e - start + 2 > M" using False by (simp add: e start)
        have sp: "truncSpec M thr run (lo # hi # rest) = run @ lo # hi # truncSpec M thr [] rest"
          using False \<open>\<not> int16LE lo hi < thr\<close> by simp
        have "truncateLoop M thr ?buf ?i start end = truncateLoop M thr ?buf (?i + 2) start None"
          using \<open>\<not> int16LE lo hi < thr\<close> rd lt Some dc by (subst truncateLoop.simps) simp
        then show ?thesis by (simp only: rec sp)
      qed
    qed
  qed
next
  case (2 M thr run)
  then show ?case by (subst truncateLoop.simps) simp
next
  case (3 M thr run v)
  then show ?case by simp
qed

lemma truncSpec_even:
  "0 \<le> M \<Longrightarrow> even M \<Longrightarrow> even (length run) \<Longrightarrow> even (length rest) \<Longrightarrow>
     even (length (truncSpec M thr run rest))"
proof (induction M thr run rest rule: truncSpec.induct)
  case (1 M thr run lo hi rest)
  have "even (int (length run) - M)" using "1.prems" by simp
  then have "even (nat (int (length run) - M))"
    by (cases "int (length run) \<le> M") (simp_all add: even_nat_iff)
  then show ?case using 1 by simp
qed simp_all

text \<open>
  On a buffer of even length and a non-negative bound, \<open>truncateSilences\<close> returns, and
  its result is no longer than its input.
\<close>

lemma truncateSilences_spec:
  assumes "0 \<le> M" and "even (length buf)"
  shows "truncateSilences buf M thr = Some (Inr (truncSpec M thr [] buf))"
  using truncateLoop_spec [of M buf "[]" None "[]" 0 thr] assms
  by (simp add: truncateSilences_def)

lemma truncateSilences_length_le:
  assumes "0 \<le> M" and "even (length buf)"
  shows "\<exists>out. truncateSilences buf M thr = Some (Inr out) \<and> length out \<le> length buf"
  using truncateSilences_spec [OF assms, of thr] truncSpec_length [of M thr "[]" buf] by simp

text \<open>
  The loop of \<open>truncateSilences\<close> ends on every input: an iteration either moves the cursor
  forward in the same buffer or deletes at least one byte. So \<open>truncateSilences\<close> always
  returns, a buffer or a range error.
\<close>

lemma readInt16LE_Inr_nonneg: "readInt16LE buf i = Inr v \<Longrightarrow> 0 \<le> i"
  by (auto simp: readInt16LE_def split: if_splits)

lemma delete_shorter:
  assumes "0 \<le> start" and "start < int (length buf)" and "0 < d"
  shows "length (slice buf 0 start @ sliceFrom buf (start + d)) < length buf"
  using assms by (auto simp: slice_def sliceFrom_def clampIndex_def min_def)

lemma truncateLoop_returns:
  assumes "\<forall>e. end = Some e \<longrightarrow> 0 \<le> start \<and> start \<le> e \<and> e < i"
  shows "\<exists>r. truncateLoop M thr buf i start end = Some r"
  using assms
proof (induction "length buf" arbitrary: buf i start "end" rule: less_induct)
  case outer: less
  show ?case
    using outer.prems
  proof (induction "nat (int (length buf) - i)" arbitrary: i start "end" rule: less_induct)
    case inner: less
    show ?case
    proof (cases "i < int (length buf)")
      case False
      then show ?thesis by (subst truncateLoop.simps) simp
    next
      case True
      show ?thesis
      proof (cases "readInt16LE buf i")
        case (Inl e)
        then show ?thesis using True by (subst truncateLoop.simps) simp
      next
        case (Inr v)
        then have i0: "0 \<le> i" by (rule readInt16LE_Inr_nonneg)
        have step: "\<exists>r. truncateLoop M thr buf (i + 2) s e = Some r"
          if "\<forall>x. e = Some x \<longrightarrow> 0 \<le> s \<and> s \<le> x \<and> x < i + 2" for s e
          using inner.hyps [of "i + 2" e s] True that by simp
        show ?thesis
        proof (cases "v < thr")
          case silent: True
          have "\<exists>r. truncateLoop M thr buf (i + 2) (if end = None then i else start) (Some i)
                  = Some r"
            using inner.prems i0 by (intro step) auto
          then show ?thesis using True Inr silent by (subst truncateLoop.simps) simp
        next
          case loud: False
          have cont: "\<exists>r. truncateLoop M thr buf (i + 2) start None = Some r"
            by (intro step) simp
          show ?thesis
          proof (cases "end")
            case None
            then show ?thesis using True Inr loud cont by (subst truncateLoop.simps) simp
          next
            case (Some e)
            then have inv: "0 \<le> start" "start \<le> e" "e < i" using inner.prems by auto
            show ?thesis
            proof (cases "e - start + 2 > M")
              case False
              then show ?thesis using True Inr loud Some cont by (subst truncateLoop.simps) simp
            next
              case del: True
              define d where "d = e - start - M + 2"
              have "0 < d" using del by (simp add: d_def)
              then have "length (slice buf 0 start @ sliceFrom buf (start + d)) < length buf"
                using inv True by (intro delete_shorter) simp_all
              then have "\<exists>r. truncateLoop M thr (slice buf 0 start @ sliceFrom buf (start + d))
                              (i - d + 2) start None = Some r"
                by (rule outer.hyps) simp
              then show ?thesis
                using True Inr loud Some del
                by (subst truncateLoop.simps) (simp add: Let_def d_def)
            qed
          qed
        qed
      qed
    qed
  qed
qed

lemma truncateSilences_returns: "\<exists>r. truncateSilences buf maxSamples threshold = Some r"
  unfolding truncateSilences_def by (rule truncateLoop_returns) simp

text \<open>
  What the loop does achieve: for an even, non-negative bound, every silent run of the
  result that a louder sample ends is at most \<open>maxSamples\<close> bytes long.
\<close>

lemma truncateSilences_interior_runs:
  assumes "0 \<le> M" and "even M" and "even (length buf)"
  shows "\<exists>out. truncateSilences buf M thr = Some (Inr out) \<and> interiorOK M thr 0 out"
  using truncateSilences_spec [OF assms(1,3), of thr] truncSpec_interior [of M thr "[]" buf] assms
  by simp

text \<open>
  What the loop does on a buffer that is all silence: no louder sample ever ends the run,
  so nothing is deleted, whatever the bound.
\<close>

lemma truncateSilences_all_silent:
  assumes "even (length buf)" and "\<forall>v \<in> set (samples buf). v < thr" and "0 \<le> M"
  shows "truncateSilences buf M thr = Some (Inr buf)"
proof -
  have "truncateSilences buf M thr = Some (Inr (truncSpec M thr [] buf))"
    using assms(3,1) by (rule truncateSilences_spec)
  moreover have "allSilent thr buf" using assms(1,2) by (rule allSilent_samples)
  ultimately show ?thesis by (simp add: allSilent_truncSpec)
qed

text \<open>
  Measured the way the code measures, in bytes: a buffer of even length in which no silent
  run is longer than \<open>maxSamples\<close> bytes is returned as it is, and for an even bound the
  function applied to its own result returns that result.
\<close>

lemma truncateSilences_byte_bound:
  assumes "even (length buf)" and "0 \<le> M"
  shows "((\<forall>r \<in> set (silentRuns thr buf). 2 * int r \<le> M)
            \<longrightarrow> truncateSilences buf M thr = Some (Inr buf))
       \<and> (even M \<longrightarrow> (\<exists>out. truncateSilences buf M thr = Some (Inr out)
                            \<and> truncateSilences out M thr = Some (Inr out)))"
proof (intro conjI impI)
  assume "\<forall>r \<in> set (silentRuns thr buf). 2 * int r \<le> M"
  then have "interiorOK M thr (2 * 0) buf"
    unfolding silentRuns_def by (rule runs_interiorOK [OF assms(2)])
  then have "truncSpec M thr [] buf = buf"
    using interiorOK_unchanged [of M thr "[]" buf] by simp
  then show "truncateSilences buf M thr = Some (Inr buf)"
    using truncateSilences_spec [OF assms(2,1), of thr] by simp
next
  assume ev: "even M"
  let ?out = "truncSpec M thr [] buf"
  have 1: "truncateSilences buf M thr = Some (Inr ?out)"
    using assms by (simp add: truncateSilences_spec)
  have "interiorOK M thr 0 ?out"
    using assms ev by (simp add: truncSpec_interior)
  then have fp: "truncSpec M thr [] ?out = ?out"
    using interiorOK_unchanged [of M thr "[]" ?out] by simp
  have "even (length ?out)" using assms ev by (simp add: truncSpec_even)
  then have "truncateSilences ?out M thr = Some (Inr (truncSpec M thr [] ?out))"
    using assms(2) by (simp add: truncateSilences_spec)
  then show "\<exists>out. truncateSilences buf M thr = Some (Inr out) \<and> truncateSilences out M thr = Some (Inr out)"
    using 1 fp by simp
qed

subsection \<open>Claims about truncateSilences\<close>

text \<open>
  C1. Every maximal run of silent samples of the result of \<open>truncateSilences\<close> is at most
  \<open>maxSilenceSamples\<close> long, and the result is no longer than the input. The code
  truncates a silent run only when a louder sample follows it: on the buffer of one loud
  sample followed by three silent ones, with the bound 2, the result is the input, whose
  trailing run of three samples (six bytes) is longer than the bound.
\<close>

theorem truncateSilences_keeps_trailing_run:
  "truncateSilences [0xE8, 3, 0, 0, 0, 0, 0, 0] 2 100 = Some (Inr [0xE8, 3, 0, 0, 0, 0, 0, 0])
   \<and> silentRuns 100 [0xE8, 3, 0, 0, 0, 0, 0, 0] = [3]"
  by code_simp

text \<open>
  C2. A buffer that is all silence is truncated to a single run of \<open>maxSilenceSamples\<close>
  silent samples. The code returns it unchanged: the buffer of three silent samples, with
  the bound 2, comes back three samples (six bytes) long. The run reaches the end of the
  buffer, and the code truncates a run only when a louder sample follows it.
\<close>

theorem truncateSilences_keeps_all_silent_buffer:
  "truncateSilences [0, 0, 0, 0, 0, 0] 2 100 = Some (Inr [0, 0, 0, 0, 0, 0])
   \<and> silentRuns 100 [0, 0, 0, 0, 0, 0] = [3]"
  by code_simp

text \<open>
  C3. A buffer in which no silent run exceeds \<open>maxSilenceSamples\<close> is returned unchanged,
  and \<open>truncateSilences\<close> is idempotent. The code compares the length of a run in bytes
  with the bound: the buffer of five silent samples and a loud one has no run longer than
  8 samples, and with the bound 8 its run is cut to four samples. With the odd bound 1
  the deletion leaves a buffer of odd length: two silent samples and a loud one become
  three bytes, on which a second application raises a range error, so the second
  application does not return what the first did.
\<close>

theorem truncateSilences_cuts_run_within_bound:
  "silentRuns 100 [0, 0, 0, 0, 0, 0, 0, 0, 0, 0, 0xE8, 3] = [5]
   \<and> truncateSilences [0, 0, 0, 0, 0, 0, 0, 0, 0, 0, 0xE8, 3] 8 100
       = Some (Inr [0, 0, 0, 0, 0, 0, 0, 0, 0xE8, 3])
   \<and> truncateSilences [0, 0, 0, 0, 0xE8, 3] 1 100 = Some (Inr [0, 0xE8, 3])
   \<and> truncateSilences [0, 0xE8, 3] 1 100 = Some (Inl RangeError)"
  by code_simp

section \<open>Properties of chunkBuffer\<close>

text \<open>
  A cut loses nothing: the prefix that is pushed and the remainder that is kept make up the
  buffer, whatever the mark.
\<close>

lemma slice_sliceFrom: "slice buf 0 m @ sliceFrom buf m = buf"
  by (simp add: slice_def sliceFrom_def clampIndex_def)


text \<open>
  Whenever the loop returns a list of chunks, that list is \<open>bufs\<close> followed by a non-empty
  list of chunks whose concatenation is the buffer the loop was entered with. The proof
  is by induction on the computation of the loop.
\<close>

lemma chunkLoop_concat:
  assumes "chunkLoop minS maxL thr buf i start end marks bufs = Some r"
  shows "\<forall>out. r = Inr out \<longrightarrow> (\<exists>cs. out = bufs @ cs \<and> cs \<noteq> [] \<and> concat cs = buf)"
  using assms
proof (induction rule: chunkLoop.raw_induct [rotated 1, consumes 1])
  case (1 loop minS maxL thr buf i start "end" marks bufs r)
  have cut: "\<forall>out. r = Inr out \<longrightarrow> (\<exists>cs. out = bufs @ cs \<and> cs \<noteq> [] \<and> concat cs = buf)"
    if "loop minS maxL thr (sliceFrom buf m) j s e ms (bufs @ [slice buf 0 m]) = Some r" for m j s e ms
  proof (intro allI impI)
    fix out assume "r = Inr out"
    with "1.IH" [of minS maxL thr "sliceFrom buf m" j s e ms "bufs @ [slice buf 0 m]" r] that obtain cs where
      cs: "out = (bufs @ [slice buf 0 m]) @ cs" "cs \<noteq> []" "concat cs = sliceFrom buf m" by blast
    have "out = bufs @ (slice buf 0 m # cs)" using cs(1) by simp
    moreover have "concat (slice buf 0 m # cs) = buf" using cs(3) by (simp add: slice_sliceFrom)
    ultimately show "\<exists>cs. out = bufs @ cs \<and> cs \<noteq> [] \<and> concat cs = buf" by blast
  qed
  show ?case
    using "1.hyps" "1.IH" cut
    by (auto split: if_splits sum.splits option.splits)
qed

text \<open>
  The loop of \<open>chunkBuffer\<close> ends on every input: an iteration either moves the cursor
  forward in the same buffer or cuts a non-empty prefix off it, since a mark is the offset
  of a sample that follows a silent one. So \<open>chunkBuffer\<close> always returns.
\<close>

lemma sliceFrom_shorter:
  "0 < m \<Longrightarrow> buf \<noteq> [] \<Longrightarrow> length (sliceFrom buf m) < length buf"
  by (auto simp: sliceFrom_def clampIndex_def min_def)

lemma chunkLoop_returns:
  assumes "0 \<le> i" and "end \<noteq> None \<longrightarrow> 0 < i" and "\<forall>m \<in> set marks. 0 < m"
  shows "\<exists>r. chunkLoop minS maxL thr buf i start end marks bufs = Some r"
  using assms
proof (induction "length buf" arbitrary: buf i start "end" marks bufs rule: less_induct)
  case outer: less
  show ?case
    using outer.prems
  proof (induction "nat (int (length buf) - i)" arbitrary: i start "end" marks bufs
           rule: less_induct)
    case inner: less
    show ?case
    proof (cases "i < int (length buf)")
      case False
      then show ?thesis by (subst chunkLoop.simps) simp
    next
      case True
      then have ne: "buf \<noteq> []" using inner.prems(1) by auto
      have step: "\<exists>r. chunkLoop minS maxL thr buf (i + 2) s e ms bs = Some r"
        if "e \<noteq> None \<longrightarrow> 0 < i + 2" and "\<forall>m \<in> set ms. 0 < m" for s e ms bs
        using inner.hyps [of "i + 2" e ms s bs] True inner.prems(1) that by simp
      have cut: "\<exists>r. chunkLoop minS maxL thr (sliceFrom buf (last marks)) (0 + 2) 0 None [] bs = Some r"
        if "marks \<noteq> []" for bs
      proof -
        have "0 < last marks" using that inner.prems(3) by simp
        then have "length (sliceFrom buf (last marks)) < length buf"
          using ne by (rule sliceFrom_shorter)
        then show ?thesis by (rule outer.hyps) simp_all
      qed
      show ?thesis
      proof (cases "readInt16LE buf i")
        case (Inl e)
        then show ?thesis using True by (subst chunkLoop.simps) simp
      next
        case (Inr v)
        show ?thesis
        proof (cases "v < thr")
          case silent: True
          have "\<exists>r. chunkLoop minS maxL thr buf (i + 2) (if end = None then i else start)
                       (Some i) marks bufs = Some r"
            using inner.prems by (intro step) simp_all
          then show ?thesis using True Inr silent by (subst chunkLoop.simps) simp
        next
          case loud: False
          show ?thesis
          proof (cases "end")
            case None
            have "\<exists>r. chunkLoop minS maxL thr buf (i + 2) start None marks bufs = Some r"
              using inner.prems by (intro step) simp_all
            then show ?thesis using True Inr loud None by (subst chunkLoop.simps) simp
          next
            case (Some e)
            then have pos: "0 < i" using inner.prems(2) by simp
            have a: "\<exists>r. chunkLoop minS maxL thr buf (i + 2) start None (marks @ [i]) bufs = Some r"
              using inner.prems pos by (intro step) simp_all
            have b: "\<exists>r. chunkLoop minS maxL thr buf (i + 2) start (Some e) marks bufs = Some r"
              using inner.prems pos by (intro step) simp_all
            show ?thesis
              using True Inr loud Some a b cut [of "bufs @ [slice buf 0 (last marks)]"]
              by (subst chunkLoop.simps) simp
          qed
        qed
      qed
    qed
  qed
qed

lemma chunkBuffer_returns: "\<exists>r. chunkBuffer buf minSamples maxLength threshold = Some r"
  unfolding chunkBuffer_def by (rule chunkLoop_returns) simp_all

text \<open>
  C4. Whenever \<open>chunkBuffer\<close> succeeds, the concatenation of the chunks it returns, in
  order, is the original buffer, and the last chunk is the remainder of the buffer after
  the chunks before it.
\<close>

theorem chunkBuffer_concat:
  assumes "chunkBuffer buf minSamples maxLength threshold = Some (Inr chunks)"
  shows "concat chunks = buf \<and> chunks \<noteq> []
         \<and> last chunks = drop (length (concat (butlast chunks))) buf"
proof -
  from chunkLoop_concat [OF assms [unfolded chunkBuffer_def]]
  have c: "chunks \<noteq> []" "concat chunks = buf" by auto
  then have "concat (butlast chunks) @ last chunks = buf"
    by (metis append_butlast_last_id concat.simps(1,2) concat_append append_Nil2)
  then have "last chunks = drop (length (concat (butlast chunks))) buf"
    by (metis append_eq_conv_conj)
  with c show ?thesis by simp
qed

text \<open>
  C4 at a buffer of six samples, loud, silent, loud, loud, silent, loud, with the length
  bound 10: it is cut after the first silence.
\<close>

theorem chunkBuffer_concat_witness:
  "chunkBuffer [0xE8, 3, 0, 0, 0xE8, 3, 0xE8, 3, 0, 0, 0xE8, 3] 0 10 100
     = Some (Inr [[0xE8, 3, 0, 0], [0xE8, 3, 0xE8, 3, 0, 0, 0xE8, 3]])
   \<and> concat [[0xE8, 3, 0, 0], [0xE8, 3, 0xE8, 3, 0, 0, 0xE8, 3 :: byte]]
       = [0xE8, 3, 0, 0, 0xE8, 3, 0xE8, 3, 0, 0, 0xE8, 3]"
proof -
  have h: "chunkBuffer [0xE8, 3, 0, 0, 0xE8, 3, 0xE8, 3, 0, 0, 0xE8, 3] 0 10 100
     = Some (Inr [[0xE8, 3, 0, 0], [0xE8, 3, 0xE8, 3, 0, 0, 0xE8, 3]])" by code_simp
  show ?thesis using h chunkBuffer_concat [OF h] by simp
qed

text \<open>
  A buffer of even length without a silent sample is returned as a single chunk, whatever
  the length bound.
\<close>

lemma chunkLoop_all_loud:
  assumes "even (length rest)" and "\<forall>v \<in> set (samples rest). \<not> v < thr"
  shows "chunkLoop minS maxL thr (pre @ rest) (int (length pre)) start None marks bufs
           = Some (Inr (bufs @ [pre @ rest]))"
  using assms
proof (induction rest arbitrary: pre rule: samples.induct)
  case (1 lo hi rest)
  have rd: "readInt16LE (pre @ lo # hi # rest) (int (length pre)) = Inr (int16LE lo hi)"
    by (rule readInt16LE_at)
  have loud: "\<not> int16LE lo hi < thr" using "1.prems"(2) by simp
  have "chunkLoop minS maxL thr ((pre @ [lo, hi]) @ rest) (int (length (pre @ [lo, hi]))) start None
          marks bufs = Some (Inr (bufs @ [(pre @ [lo, hi]) @ rest]))"
    using "1.prems" by (intro "1.IH") simp_all
  then have "chunkLoop minS maxL thr (pre @ lo # hi # rest) (int (length pre) + 2) start None
          marks bufs = Some (Inr (bufs @ [pre @ lo # hi # rest]))"
    by (simp add: add.commute)
  then show ?case using rd loud by (subst chunkLoop.simps) simp
next
  case 2
  then show ?case by (subst chunkLoop.simps) simp
next
  case (3 v)
  then show ?case by simp
qed

lemma chunkBuffer_all_loud:
  assumes "even (length buf)" and "\<forall>v \<in> set (samples buf). \<not> v < threshold"
  shows "chunkBuffer buf minSamples maxLength threshold = Some (Inr [buf])"
  using chunkLoop_all_loud [OF assms, of minSamples maxLength "[]" 0 "[]" "[]"]
  by (simp add: chunkBuffer_def)

text \<open>
  C5. \<open>chunkBuffer\<close> fails with \<open>ChunkingImpossible\<close> on a buffer longer than
  \<open>maxChunkLength\<close> that has no silent run of at least \<open>minSilenceSamples\<close> before the
  bound. The code raises only at a loud sample that ends a silent run: a buffer of three
  loud samples (six bytes), with the bound 2, has no silent run at all and is returned as
  one chunk of six bytes.
\<close>

theorem chunkBuffer_no_silence_returns:
  "chunkBuffer [0xE8, 3, 0xE8, 3, 0xE8, 3] 0 2 100 = Some (Inr [[0xE8, 3, 0xE8, 3, 0xE8, 3]])
   \<and> silentRuns 100 [0xE8, 3, 0xE8, 3, 0xE8, 3] = []"
  by code_simp

section \<open>Properties of the relay dispatcher\<close>

text \<open>
  Only an object or an array can fail to convert to a string, and those count as true. A
  value that converts to a string converts to a number, so the delay of \<open>setTimeout\<close>
  does not raise once the log line has converted \<open>delayInSecs\<close>.
\<close>

lemma toStr_raises_truthy: "toStr E v = Inl e \<Longrightarrow> truthy v"
  by (cases v) auto

lemma toNumber_converts: "toStr E v = Inr s \<Longrightarrow> \<exists>n. toNumber E v = Inr n"
  by (cases v) auto

lemma timeoutMs_converts: "toStr E delay = Inr d \<Longrightarrow> \<exists>ms. timeoutMs E delay = Inr ms"
  using toNumber_converts [of E delay d] by (auto simp: timeoutMs_def)

lemma schedule_converts:
  assumes "toStr E delay = Inr d"
  shows "\<exists>ms. schedule E delay before act answer = (answer, before @ [SetTimeout ms act])"
  using timeoutMs_converts [OF assms] by (auto simp: schedule_def)

lemma schedule_cases:
  "schedule E delay before act answer = (Threw, before)
   \<or> (\<exists>ms. schedule E delay before act answer = (answer, before @ [SetTimeout ms act]))"
  by (cases "timeoutMs E delay") (simp_all add: schedule_def)

lemma schedule_not_400:
  "answer \<noteq> Respond 400 ''Malformed request''
     \<Longrightarrow> fst (schedule E delay before act answer) \<noteq> Respond 400 ''Malformed request''"
  using schedule_cases [of E delay before act answer] by auto

lemma dispatch_not_400:
  "fst (dispatch E cfg fs req u c us) \<noteq> Respond 400 ''Malformed request''"
  by (simp add: dispatch_def Let_def schedule_not_400 split: option.split sum.split)

lemma checkKey_not_400: "fst (checkKey E cfg fs req) \<noteq> Respond 400 ''Malformed request''"
  by (simp add: checkKey_def Let_def dispatch_not_400 split: option.split sum.split)

text \<open>
  C7, as stated, fails: a body whose command is an object with a field named \<open>toString\<close>
  makes the log line before the check of the key raise, so a request with a wrong key is
  not answered with status 403. Nothing is scheduled.
\<close>

theorem routerPost_raises_before_key_check:
  "routerPost exampleEnv exampleConfig Map.empty
     \<lparr>reqPath = ''/broadcast'',
      reqBody = JObj [(''command'', JObj [(''toString'', JNum 0)]), (''user'', JStr ''global''),
                      (''relayKey'', JStr ''WRONG'')]\<rparr>
     = (Threw, [])"
  by (simp add: routerPost_def checkKey_def Let_def isNullish_def)

text \<open>
  C7, amended. A request whose body has \<open>command\<close>, \<open>user\<close> and \<open>relayKey\<close>, and whose
  user is not configured or whose \<open>relayKey\<close> is not strictly equal to the key configured
  for the user, invokes no downstream action, whatever its path: it is answered with
  status 403, unless \<open>command\<close>, \<open>user\<close> or \<open>delayInSecs\<close> cannot be converted to a string
  for the log line, in which case the handler raises before the check.
\<close>

theorem routerPost_denies_wrong_key:
  assumes "\<not> isNullish (getField (reqBody req) ''command'')"
    and "\<not> isNullish (getField (reqBody req) ''user'')"
    and "\<not> isNullish (getField (reqBody req) ''relayKey'')"
    and "\<forall>us u. toStr E (getField (reqBody req) ''user'') = Inr us \<longrightarrow> cfgUsers cfg us = Some u
           \<longrightarrow> \<not> strictEq (getField (reqBody req) ''relayKey'') (userRelayKey u)"
  shows "routerPost E cfg fs req =
           (if isl (toStr E (getField (reqBody req) ''command''))
               \<or> isl (toStr E (getField (reqBody req) ''user''))
               \<or> isl (toStr E (getField (reqBody req) ''delayInSecs''))
            then (Threw, [])
            else (Respond 403 ''Access denied.'', []))"
  using assms
  by (auto simp: routerPost_def checkKey_def Let_def split: option.split sum.split)

text \<open>
  The amended C7 at a cast control request for the user \<open>global\<close> with the configured key
  written in upper case.
\<close>

theorem routerPost_denies_wrong_key_witness:
  "routerPost exampleEnv exampleConfig Map.empty
     \<lparr>reqPath = ''/chromecastControl'',
      reqBody = JObj [(''command'', JStr ''PLAY''), (''user'', JStr ''global''),
                      (''relayKey'', JStr ''R3PL4AC3TH153X4MPL3N0NC3'')]\<rparr>
     = (Respond 403 ''Access denied.'', [])"
  using routerPost_denies_wrong_key [of
     "\<lparr>reqPath = ''/chromecastControl'',
      reqBody = JObj [(''command'', JStr ''PLAY''), (''user'', JStr ''global''),
                      (''relayKey'', JStr ''R3PL4AC3TH153X4MPL3N0NC3'')]\<rparr>"
     exampleEnv exampleConfig Map.empty]
  by (simp add: isNullish_def exampleConfig_def)

text \<open>
  C10, as stated, fails: with the empty command, a key, and a user that is an object with
  a field named \<open>toString\<close>, the request passes the check of its fields, and the log line
  that follows raises: the handler does not reach the check of the key.
\<close>

theorem routerPost_empty_command_raises:
  "routerPost exampleEnv exampleConfig Map.empty
     \<lparr>reqPath = ''/broadcast'',
      reqBody = JObj [(''command'', JStr []), (''user'', JObj [(''toString'', JNum 0)]),
                      (''relayKey'', JStr ''r3pl4ac3th153x4mpl3n0nc3'')]\<rparr>
     = (Threw, [])"
  by (simp add: routerPost_def checkKey_def Let_def isNullish_def)

text \<open>
  C10, amended. The handler answers 400 \<open>Malformed request\<close> only when \<open>command\<close>, \<open>user\<close>
  or \<open>relayKey\<close> is null or absent (and then it does, unless the log line of that branch
  raises). A request whose command is the empty string, with a user and a key, is not
  answered 400: it goes on to the log line and, when \<open>user\<close> and \<open>delayInSecs\<close> convert to
  strings there, to the check of the key and, when the key is right, to the dispatch.
\<close>

theorem routerPost_required_fields:
  "(fst (routerPost E cfg fs req) = Respond 400 ''Malformed request''
      \<longrightarrow> isNullish (getField (reqBody req) ''command'') \<or> isNullish (getField (reqBody req) ''user'')
          \<or> isNullish (getField (reqBody req) ''relayKey''))
   \<and> (isNullish (getField (reqBody req) ''command'') \<or> isNullish (getField (reqBody req) ''user'')
        \<or> isNullish (getField (reqBody req) ''relayKey'')
      \<longrightarrow> routerPost E cfg fs req =
            (if isl (toStr E (getField (reqBody req) ''command''))
                \<or> isl (toStr E (getField (reqBody req) ''user''))
             then (Threw, []) else (Respond 400 ''Malformed request'', [])))
   \<and> (getField (reqBody req) ''command'' = JStr [] \<and> \<not> isNullish (getField (reqBody req) ''user'')
        \<and> \<not> isNullish (getField (reqBody req) ''relayKey'')
      \<longrightarrow> fst (routerPost E cfg fs req) \<noteq> Respond 400 ''Malformed request''
          \<and> routerPost E cfg fs req =
              (case toStr E (getField (reqBody req) ''user'') of
                 Inl e \<Rightarrow> (Threw, [])
               | Inr us \<Rightarrow>
                  (case toStr E (getField (reqBody req) ''delayInSecs'') of
                     Inl e \<Rightarrow> (Threw, [])
                   | Inr d \<Rightarrow>
                      (case cfgUsers cfg us of
                         None \<Rightarrow> (Respond 403 ''Access denied.'', [])
                       | Some u \<Rightarrow>
                          if strictEq (getField (reqBody req) ''relayKey'') (userRelayKey u)
                          then dispatch E cfg fs req u [] us
                          else (Respond 403 ''Access denied.'', [])))))"
proof (intro conjI impI)
  assume "fst (routerPost E cfg fs req) = Respond 400 ''Malformed request''"
  then show "isNullish (getField (reqBody req) ''command'')
      \<or> isNullish (getField (reqBody req) ''user'') \<or> isNullish (getField (reqBody req) ''relayKey'')"
    using checkKey_not_400 [of E cfg fs req]
    by (auto simp: routerPost_def Let_def split: if_splits)
next
  assume n: "isNullish (getField (reqBody req) ''command'')
      \<or> isNullish (getField (reqBody req) ''user'') \<or> isNullish (getField (reqBody req) ''relayKey'')"
  show "routerPost E cfg fs req =
            (if isl (toStr E (getField (reqBody req) ''command''))
                \<or> isl (toStr E (getField (reqBody req) ''user''))
             then (Threw, []) else (Respond 400 ''Malformed request'', []))"
    using n by (auto simp: routerPost_def Let_def split: sum.split dest: toStr_raises_truthy)
next
  assume a: "getField (reqBody req) ''command'' = JStr [] \<and> \<not> isNullish (getField (reqBody req) ''user'')
        \<and> \<not> isNullish (getField (reqBody req) ''relayKey'')"
  then have r: "routerPost E cfg fs req = checkKey E cfg fs req"
    by (simp add: routerPost_def Let_def isNullish_def)
  show "fst (routerPost E cfg fs req) \<noteq> Respond 400 ''Malformed request''"
    using r checkKey_not_400 [of E cfg fs req] by simp
  show "routerPost E cfg fs req =
              (case toStr E (getField (reqBody req) ''user'') of
                 Inl e \<Rightarrow> (Threw, [])
               | Inr us \<Rightarrow>
                  (case toStr E (getField (reqBody req) ''delayInSecs'') of
                     Inl e \<Rightarrow> (Threw, [])
                   | Inr d \<Rightarrow>
                      (case cfgUsers cfg us of
                         None \<Rightarrow> (Respond 403 ''Access denied.'', [])
                       | Some u \<Rightarrow>
                          if strictEq (getField (reqBody req) ''relayKey'') (userRelayKey u)
                          then dispatch E cfg fs req u [] us
                          else (Respond 403 ''Access denied.'', []))))"
    using a by (simp add: r checkKey_def Let_def)
qed

text \<open>
  The amended C10 at a broadcast request with the empty command and the right key: it is
  accepted, and the text \<open>broadcast \<close> is scheduled for the assistant.
\<close>

theorem routerPost_required_fields_witness:
  "routerPost exampleEnv exampleConfig Map.empty
     \<lparr>reqPath = ''/broadcast'',
      reqBody = JObj [(''command'', JStr []), (''user'', JStr ''global''),
                      (''relayKey'', JStr ''r3pl4ac3th153x4mpl3n0nc3'')]\<rparr>
     = (Respond 200 ''Executed broadcast '',
        [SetTimeout (Some 0) (SendTextInput (JStr ''broadcast '') (JStr ''global'') JUndefined)])"
  using routerPost_required_fields [of exampleEnv exampleConfig Map.empty
     "\<lparr>reqPath = ''/broadcast'',
      reqBody = JObj [(''command'', JStr []), (''user'', JStr ''global''),
                      (''relayKey'', JStr ''r3pl4ac3th153x4mpl3n0nc3'')]\<rparr>"]
  by (simp add: isNullish_def exampleConfig_def exampleEnv_def dispatch_def Let_def onRoute_def
        relayRoutes_def schedule_def timeoutMs_def)

subsection \<open>Cast transport control\<close>

text \<open>
  The three tests the handler makes on \<open>currentTime\<close> hold together exactly for the
  positive integers: the first of them is the truth value of the number, which is false
  for zero.
\<close>

lemma seek_time_ok:
  "(truthy v \<and> isInteger v \<and> geZero v) = (\<exists>n::int. 0 < n \<and> v = JNum (of_int n))"
proof (cases v)
  case (JNum r)
  show ?thesis
  proof
    assume a: "truthy v \<and> isInteger v \<and> geZero v"
    then have r: "r = of_int (floor r)" "r \<noteq> 0" "0 \<le> r" using JNum by simp_all
    then have "0 < r" by simp
    then have "0 < floor r" using r(1) by (metis of_int_0_less_iff)
    then show "\<exists>n::int. 0 < n \<and> v = JNum (of_int n)"
      using r(1) JNum by blast
  next
    assume "\<exists>n::int. 0 < n \<and> v = JNum (of_int n)"
    then show "truthy v \<and> isInteger v \<and> geZero v" by auto
  qed
qed simp_all

text \<open>
  On the cast control route a request is accepted exactly when its command is \<open>PLAY\<close>,
  \<open>PAUSE\<close>, \<open>STOP\<close>, or \<open>SEEK\<close> with a positive integer \<open>currentTime\<close>; an accepted
  request is scheduled for the cast controller, and every other one is answered with
  status 500 and no downstream action.
\<close>

lemma dispatch_control:
  assumes "\<not> onRoute (cfgBroadcastAudio cfg) req" and "\<not> onRoute (cfgChromecastTTS cfg) req"
    and "\<not> onRoute (cfgChromecastAudio cfg) req" and "\<not> onRoute (cfgChromecastURL cfg) req"
    and "onRoute (cfgChromecastControl cfg) req"
  shows "dispatch E cfg fs req u c us =
     (if getField (reqBody req) ''command'' = JStr ''PLAY''
         \<or> getField (reqBody req) ''command'' = JStr ''PAUSE''
         \<or> getField (reqBody req) ''command'' = JStr ''STOP''
         \<or> (getField (reqBody req) ''command'' = JStr ''SEEK''
             \<and> (\<exists>n::int. 0 < n \<and> getField (reqBody req) ''currentTime'' = JNum (of_int n)))
      then
        schedule E (getField (reqBody req) ''delayInSecs'') []
          (Control (chromecastFriendlyName u)
             \<lparr>ctlType = getField (reqBody req) ''command'',
              ctlCurrentTime =
                (if getField (reqBody req) ''command'' = JStr ''SEEK''
                 then getField (reqBody req) ''currentTime'' else JUndefined)\<rparr>)
          (Respond 200 (''Send control request '' @ c @ '' via Chromecast.''))
      else (Respond 500 ''Malfored request.'', []))"
proof -
  have eq: "strictEq x (JStr s) = (x = JStr s)" for x s by (cases x) auto
  have tr: "x = JStr ''PLAY'' \<or> x = JStr ''PAUSE'' \<or> x = JStr ''STOP'' \<or> x = JStr ''SEEK''
              \<Longrightarrow> truthy x" for x by auto
  show ?thesis
    using assms tr [of "getField (reqBody req) ''command''"]
    by (auto simp: dispatch_def Let_def PLAY_def PAUSE_def STOP_def SEEK_def eq
          seek_time_ok [of "getField (reqBody req) ''currentTime''", symmetric])
qed

text \<open>
  C8. Every \<open>SEEK\<close> request with a non-negative integer \<open>currentTime\<close> is accepted and
  forwarded to the cast controller. The code rejects \<open>currentTime = 0\<close>: zero is an
  integer and not below zero, the request with the right key is answered with status 500
  and nothing is scheduled.
\<close>

theorem seek_zero_rejected:
  "routerPost exampleEnv exampleConfig Map.empty
     \<lparr>reqPath = ''/chromecastControl'',
      reqBody = JObj [(''command'', JStr ''SEEK''), (''user'', JStr ''global''),
                      (''relayKey'', JStr ''r3pl4ac3th153x4mpl3n0nc3''),
                      (''currentTime'', JNum 0)]\<rparr>
     = (Respond 500 ''Malfored request.'', [])
   \<and> isInteger (JNum 0) \<and> geZero (JNum 0)"
  by (simp add: routerPost_def checkKey_def dispatch_def Let_def isNullish_def exampleConfig_def
        onRoute_def relayRoutes_def PLAY_def PAUSE_def STOP_def SEEK_def)

text \<open>
  \<open>control\<close> of the cast module makes the same test: given \<open>SEEK\<close> with the time 0 for a
  known service with a player, it calls no player.
\<close>

lemma control_seek_zero:
  "control exampleEnv (\<lambda>s. True) (\<lambda>s. True) (JStr ''global'')
        \<lparr>ctlType = JStr ''SEEK'', ctlCurrentTime = JNum 0\<rparr> = Inr []"
  by (simp add: control_def PLAY_def PAUSE_def STOP_def SEEK_def)

text \<open>
  The other parts of C8 hold: a \<open>SEEK\<close> with a negative time is rejected with no downstream
  action, and a \<open>SEEK\<close> with a positive integer time is accepted and scheduled.
\<close>

lemma seek_negative_rejected:
  assumes "\<not> onRoute (cfgBroadcastAudio cfg) req" and "\<not> onRoute (cfgChromecastTTS cfg) req"
    and "\<not> onRoute (cfgChromecastAudio cfg) req" and "\<not> onRoute (cfgChromecastURL cfg) req"
    and "onRoute (cfgChromecastControl cfg) req"
    and "getField (reqBody req) ''command'' = JStr ''SEEK''"
    and "getField (reqBody req) ''currentTime'' = JNum r" and "r < 0"
  shows "dispatch E cfg fs req u c us = (Respond 500 ''Malfored request.'', [])"
  using assms(6-8) by (auto simp: dispatch_control [OF assms(1-5)])

lemma seek_positive_accepted:
  assumes "\<not> onRoute (cfgBroadcastAudio cfg) req" and "\<not> onRoute (cfgChromecastTTS cfg) req"
    and "\<not> onRoute (cfgChromecastAudio cfg) req" and "\<not> onRoute (cfgChromecastURL cfg) req"
    and "onRoute (cfgChromecastControl cfg) req"
    and "getField (reqBody req) ''command'' = JStr ''SEEK''"
    and "getField (reqBody req) ''currentTime'' = JNum (of_int n)" and "0 < n"
    and "toStr E (getField (reqBody req) ''delayInSecs'') = Inr d"
  shows "\<exists>ms. dispatch E cfg fs req u ''SEEK'' us =
     (Respond 200 ''Send control request SEEK via Chromecast.'',
      [SetTimeout ms
         (Control (chromecastFriendlyName u)
            \<lparr>ctlType = JStr ''SEEK'', ctlCurrentTime = JNum (of_int n)\<rparr>)])"
  using assms(6-8) schedule_converts [OF assms(9), of "[]"]
  by (auto simp: dispatch_control [OF assms(1-5)])

subsection \<open>The speech cache\<close>

text \<open>
  The effects of a request that takes the text-to-speech branch: none when the voice
  descriptor cannot be built; otherwise a synthesis call when the artifact is not in the
  cache, and the cast of the artifact's URL.
\<close>

lemma routerPost_tts:
  assumes "reachesTTS E cfg req"
  shows "case ttsArtifactPath E cfg (reqBody req) of
           Inl e \<Rightarrow> snd (routerPost E cfg fs req) = []
         | Inr p \<Rightarrow>
            (\<exists>ms a. snd (routerPost E cfg fs req) =
               (if existsSync fs p then []
                else [SynthesizeSpeech
                        \<lparr>ttsText = getField (reqBody req) ''command'',
                         ttsVoice = ttsVoiceOf cfg (reqBody req)\<rparr> p])
               @ [SetTimeout ms a])"
proof -
  from assms obtain c us d u where
    nn: "\<not> isNullish (getField (reqBody req) ''command'')"
        "\<not> isNullish (getField (reqBody req) ''user'')"
        "\<not> isNullish (getField (reqBody req) ''relayKey'')"
    and cv: "toStr E (getField (reqBody req) ''command'') = Inr c"
        "toStr E (getField (reqBody req) ''user'') = Inr us"
        "toStr E (getField (reqBody req) ''delayInSecs'') = Inr d"
    and au: "cfgUsers cfg us = Some u"
        "strictEq (getField (reqBody req) ''relayKey'') (userRelayKey u)"
    and rt: "\<not> onRoute (cfgBroadcastAudio cfg) req" "onRoute (cfgChromecastTTS cfg) req"
    by (auto simp: reachesTTS_def Let_def split: sum.splits option.splits)
  have r: "routerPost E cfg fs req = dispatch E cfg fs req u c us"
    using nn cv au by (simp add: routerPost_def checkKey_def Let_def)
  show ?thesis
  proof (cases "encodedCommand E cfg (reqBody req)")
    case (Inl e)
    then show ?thesis using rt by (simp add: r dispatch_def Let_def ttsArtifactPath_def)
  next
    case (Inr digest)
    let ?p = "cfgTTSCachePath cfg @ ''/'' @ digest @ ''.mp3''"
    let ?synth = "if existsSync fs ?p then []
                  else [SynthesizeSpeech
                          \<lparr>ttsText = getField (reqBody req) ''command'',
                           ttsVoice = ttsVoiceOf cfg (reqBody req)\<rparr> ?p]"
    let ?act = "Cast (chromecastFriendlyName u)
                  (JStr (''http://'' @ ipAddress E @ '':'' @ cfgStaticPort cfg
                         @ cfgStaticRoute cfg @ ''/'' @ digest @ ''.mp3''))
                  (JStr ''audio/mp3'')"
    let ?ans = "Respond 200 (''Played '' @ c @ '' via Chromecast.'')"
    have "dispatch E cfg fs req u c us
            = schedule E (getField (reqBody req) ''delayInSecs'') ?synth ?act ?ans"
      using rt Inr by (simp add: dispatch_def Let_def)
    moreover obtain ms where
      "schedule E (getField (reqBody req) ''delayInSecs'') ?synth ?act ?ans
         = (?ans, ?synth @ [SetTimeout ms ?act])"
      using schedule_converts [OF cv(3)] by blast
    ultimately have "snd (routerPost E cfg fs req) = ?synth @ [SetTimeout ms ?act]"
      by (simp only: r snd_conv)
    then show ?thesis using Inr by (auto simp: ttsArtifactPath_def)
  qed
qed

lemma ttsArtifactPath_cong:
  assumes "getField b1 ''command'' = getField b2 ''command''"
    and "getField b1 ''voice'' = getField b2 ''voice''"
  shows "ttsArtifactPath E cfg b1 = ttsArtifactPath E cfg b2"
  unfolding ttsArtifactPath_def encodedCommand_def ttsVoiceOf_def assms ..

text \<open>
  C6, as stated, fails: when the synthesis of the first request ends in an error, nothing
  is written, and the second request with the same text and voice calls the synthesis
  again. Both requests carry a synthesis call.
\<close>

theorem tts_synthesis_repeats_after_failure:
  "twoRequests exampleEnv exampleConfig (\<lambda>r. SynthError) Map.empty
     \<lparr>reqPath = ''/chromecastTTS'',
      reqBody = JObj [(''command'', JStr ''hi''), (''user'', JStr ''global''),
                      (''relayKey'', JStr ''r3pl4ac3th153x4mpl3n0nc3'')]\<rparr>
     \<lparr>reqPath = ''/chromecastTTS'',
      reqBody = JObj [(''command'', JStr ''hi''), (''user'', JStr ''global''),
                      (''relayKey'', JStr ''r3pl4ac3th153x4mpl3n0nc3'')]\<rparr>
   = ([SynthesizeSpeech
         \<lparr>ttsText = JStr ''hi'',
          ttsVoice = JObj [(''languageCode'', JStr ''en-US''), (''ssmlGender'', JStr ''NEUTRAL'')]\<rparr>
         ''audio/hien-US_NEUTRAL_undefined.mp3'',
       SetTimeout (Some 0)
         (Cast (JStr ''global'')
            (JStr ''http://192.168.0.2:25000/media/hien-US_NEUTRAL_undefined.mp3'')
            (JStr ''audio/mp3''))],
      [SynthesizeSpeech
         \<lparr>ttsText = JStr ''hi'',
          ttsVoice = JObj [(''languageCode'', JStr ''en-US''), (''ssmlGender'', JStr ''NEUTRAL'')]\<rparr>
         ''audio/hien-US_NEUTRAL_undefined.mp3'',
       SetTimeout (Some 0)
         (Cast (JStr ''global'')
            (JStr ''http://192.168.0.2:25000/media/hien-US_NEUTRAL_undefined.mp3'')
            (JStr ''audio/mp3''))])"
  by (simp add: twoRequests_def routerPost_def checkKey_def dispatch_def schedule_def Let_def
        isNullish_def exampleConfig_def exampleEnv_def onRoute_def relayRoutes_def timeoutMs_def
        ttsVoiceOf_def voiceString_def encodedCommand_def existsSync_def synthesizeCallback_def)

text \<open>
  C6, amended. Two requests that take the text-to-speech branch with the same command and
  the same voice resolve to the same artifact path, the cache directory followed by the
  digest of the command concatenated with the voice descriptor, and \<open>.mp3\<close>. If the
  artifact is already present, or the synthesis called by the first request succeeds and
  its audio is written before the second request is handled, then the second request
  makes no synthesis call, and the two requests make at most one between them.
\<close>

theorem tts_cache_hit_after_success:
  assumes "reachesTTS E cfg r1" and "reachesTTS E cfg r2"
    and "getField (reqBody r1) ''command'' = getField (reqBody r2) ''command''"
    and "getField (reqBody r1) ''voice'' = getField (reqBody r2) ''voice''"
  shows "ttsArtifactPath E cfg (reqBody r1) = ttsArtifactPath E cfg (reqBody r2)
       \<and> (\<forall>c v. toStr E (getField (reqBody r1) ''command'') = Inr c
              \<longrightarrow> voiceString E (ttsVoiceOf cfg (reqBody r1)) = Inr v
              \<longrightarrow> ttsArtifactPath E cfg (reqBody r1)
                  = Inr (cfgTTSCachePath cfg @ ''/'' @ sha1hex E (c @ v) @ ''.mp3''))
       \<and> ((\<forall>p. ttsArtifactPath E cfg (reqBody r1) = Inr p
              \<longrightarrow> existsSync fs p
                  \<or> synth \<lparr>ttsText = getField (reqBody r1) ''command'',
                             ttsVoice = ttsVoiceOf cfg (reqBody r1)\<rparr> \<noteq> SynthError)
          \<longrightarrow> synthCalls (snd (twoRequests E cfg synth fs r1 r2)) = 0
              \<and> synthCalls (fst (twoRequests E cfg synth fs r1 r2))
                  + synthCalls (snd (twoRequests E cfg synth fs r1 r2)) \<le> 1)"
proof (intro conjI impI allI)
  show same: "ttsArtifactPath E cfg (reqBody r1) = ttsArtifactPath E cfg (reqBody r2)"
    using assms(3,4) by (rule ttsArtifactPath_cong)
  show "ttsArtifactPath E cfg (reqBody r1)
          = Inr (cfgTTSCachePath cfg @ ''/'' @ sha1hex E (c @ v) @ ''.mp3'')"
    if "toStr E (getField (reqBody r1) ''command'') = Inr c"
      and "voiceString E (ttsVoiceOf cfg (reqBody r1)) = Inr v" for c v
    using that by (simp add: ttsArtifactPath_def encodedCommand_def)
  let ?effs1 = "snd (routerPost E cfg fs r1)"
  let ?fs1 = "fold (completeEffect synth) ?effs1 fs"
  assume ok: "\<forall>p. ttsArtifactPath E cfg (reqBody r1) = Inr p
              \<longrightarrow> existsSync fs p
                  \<or> synth \<lparr>ttsText = getField (reqBody r1) ''command'',
                             ttsVoice = ttsVoiceOf cfg (reqBody r1)\<rparr> \<noteq> SynthError"
  have one: "synthCalls ?effs1 \<le> 1"
    using routerPost_tts [OF assms(1), of fs]
    by (auto simp: synthCalls_def split: sum.splits)
  have none: "synthCalls (snd (routerPost E cfg ?fs1 r2)) = 0"
  proof (cases "ttsArtifactPath E cfg (reqBody r1)")
    case (Inl e)
    then show ?thesis
      using routerPost_tts [OF assms(2), of ?fs1]
      by (simp add: same [symmetric] synthCalls_def)
  next
    case (Inr p)
    then have "existsSync fs p
        \<or> synth \<lparr>ttsText = getField (reqBody r1) ''command'',
                   ttsVoice = ttsVoiceOf cfg (reqBody r1)\<rparr> \<noteq> SynthError"
      using ok by simp
    then have present: "existsSync ?fs1 p"
      using routerPost_tts [OF assms(1), of fs] Inr
      by (auto simp: existsSync_def synthesizeCallback_def split: synthOutcome.splits)
    show ?thesis
      using routerPost_tts [OF assms(2), of ?fs1] present
      by (auto simp: same [symmetric] Inr synthCalls_def)
  qed
  show "synthCalls (snd (twoRequests E cfg synth fs r1 r2)) = 0"
    using none by (simp add: twoRequests_def Let_def)
  show "synthCalls (fst (twoRequests E cfg synth fs r1 r2))
          + synthCalls (snd (twoRequests E cfg synth fs r1 r2)) \<le> 1"
    using none one by (simp add: twoRequests_def Let_def)
qed

text \<open>
  The amended C6 at two requests for the text \<open>hi\<close> with the default voice, from two
  users: the first calls the synthesis, the second only casts the cached artifact.
\<close>

theorem tts_cache_hit_after_success_witness:
  "twoRequests exampleEnv exampleConfig (\<lambda>r. SynthAudio [1, 2]) Map.empty
     \<lparr>reqPath = ''/chromecastTTS'',
      reqBody = JObj [(''command'', JStr ''hi''), (''user'', JStr ''global''),
                      (''relayKey'', JStr ''r3pl4ac3th153x4mpl3n0nc3'')]\<rparr>
     \<lparr>reqPath = ''/chromecastTTS'',
      reqBody = JObj [(''command'', JStr ''hi''), (''user'', JStr ''public''),
                      (''relayKey'', JStr ''r3pl4ac3th153x4mpl3n0nc3''),
                      (''delayInSecs'', JNum 2)]\<rparr>
   = ([SynthesizeSpeech
         \<lparr>ttsText = JStr ''hi'',
          ttsVoice = JObj [(''languageCode'', JStr ''en-US''), (''ssmlGender'', JStr ''NEUTRAL'')]\<rparr>
         ''audio/hien-US_NEUTRAL_undefined.mp3'',
       SetTimeout (Some 0)
         (Cast (JStr ''global'')
            (JStr ''http://192.168.0.2:25000/media/hien-US_NEUTRAL_undefined.mp3'')
            (JStr ''audio/mp3''))],
      [SetTimeout (Some 2000)
         (Cast (JStr ''public'')
            (JStr ''http://192.168.0.2:25000/media/hien-US_NEUTRAL_undefined.mp3'')
            (JStr ''audio/mp3''))])"
proof -
  let ?r1 = "\<lparr>reqPath = ''/chromecastTTS'',
      reqBody = JObj [(''command'', JStr ''hi''), (''user'', JStr ''global''),
                      (''relayKey'', JStr ''r3pl4ac3th153x4mpl3n0nc3'')]\<rparr>"
  let ?r2 = "\<lparr>reqPath = ''/chromecastTTS'',
      reqBody = JObj [(''command'', JStr ''hi''), (''user'', JStr ''public''),
                      (''relayKey'', JStr ''r3pl4ac3th153x4mpl3n0nc3''),
                      (''delayInSecs'', JNum 2)]\<rparr>"
  have h1: "reachesTTS exampleEnv exampleConfig ?r1"
    by (simp add: reachesTTS_def isNullish_def exampleConfig_def exampleEnv_def onRoute_def
          relayRoutes_def)
  have h2: "reachesTTS exampleEnv exampleConfig ?r2"
    by (simp add: reachesTTS_def isNullish_def exampleConfig_def exampleEnv_def onRoute_def
          relayRoutes_def)
  have h3: "getField (reqBody ?r1) ''command'' = getField (reqBody ?r2) ''command''" by simp
  have h4: "getField (reqBody ?r1) ''voice'' = getField (reqBody ?r2) ''voice''" by simp
  show ?thesis
    using tts_cache_hit_after_success [OF h1 h2 h3 h4, where synth = "\<lambda>r. SynthAudio [1, 2]" and fs = Map.empty]
    by (simp add: twoRequests_def routerPost_def checkKey_def dispatch_def schedule_def Let_def
        isNullish_def exampleConfig_def exampleEnv_def onRoute_def relayRoutes_def timeoutMs_def
        ttsVoiceOf_def voiceString_def encodedCommand_def existsSync_def synthesizeCallback_def)
qed

section \<open>Properties of the conversation session\<close>

text \<open>
  The frames written for a buffer are its bytes in order, each frame non-empty and at most
  16000 bytes long.
\<close>

lemma sendFrames_bytes:
  "0 \<le> i \<Longrightarrow> concat (map writtenBytes (sendFrames buf i)) = drop (nat i) buf"
proof (induction buf i rule: sendFrames.induct)
  case (1 buf i)
  show ?case
  proof (cases "i < int (length buf)")
    case False
    then show ?thesis using "1.prems" by (subst sendFrames.simps) simp
  next
    case True
    have rec: "concat (map writtenBytes (sendFrames buf (i + 16000))) = drop (nat (i + 16000)) buf"
      using "1.IH" [OF True] "1.prems" by simp
    have fr: "slice buf i (if i + 16000 < int (length buf) then i + 16000 else int (length buf))
              = take 16000 (drop (nat i) buf)"
      using True "1.prems" by (auto simp: slice_def clampIndex_def min_def nat_add_distrib)
    have "take 16000 (drop (nat i) buf) @ drop (nat (i + 16000)) buf = drop (nat i) buf"
      using "1.prems" append_take_drop_id [of 16000 "drop (nat i) buf"]
      by (simp add: nat_add_distrib add.commute)
    then show ?thesis
      using True rec fr by (subst sendFrames.simps) simp
  qed
qed

lemma sendFrames_frame_size:
  "0 \<le> i \<Longrightarrow> w \<in> set (sendFrames buf i) \<Longrightarrow>
     (\<exists>b. w = WriteBuffer b \<and> b \<noteq> [] \<and> length b \<le> 16000)"
proof (induction buf i rule: sendFrames.induct)
  case (1 buf i)
  show ?case
  proof (cases "i < int (length buf)")
    case False
    then show ?thesis using "1.prems" by (subst (asm) sendFrames.simps) simp
  next
    case True
    have fr: "slice buf i (if i + 16000 < int (length buf) then i + 16000 else int (length buf))
              = take 16000 (drop (nat i) buf)"
      using True "1.prems" by (auto simp: slice_def clampIndex_def min_def nat_add_distrib)
    have ne: "take 16000 (drop (nat i) buf) \<noteq> []" using True "1.prems" by simp
    from "1.prems"(2) have
      "w = WriteBuffer (take 16000 (drop (nat i) buf)) \<or> w \<in> set (sendFrames buf (i + 16000))"
      using True fr by (subst (asm) sendFrames.simps) simp
    then show ?thesis
      using "1.IH" [OF True] "1.prems"(1) ne by auto
  qed
qed

lemma startConversation_writes_continued:
  "startConversation_writes (Some buf) True = sendFrames buf 0 @ [WriteInt16Array silence]
   \<and> concat (map writtenBytes (sendFrames buf 0)) = buf"
  using sendFrames_bytes [of 0 buf] by (simp add: startConversation_writes_def)

text \<open>
  C9. After the frames of the buffer the session writes one second of silence at 16 kHz,
  16000 zero samples. The code writes \<open>silence\<close>, an array of 32000 zero samples of 16
  bits: two seconds at 16 kHz.
\<close>

theorem silence_is_32000_samples:
  "startConversation_writes (Some [1, 2]) True = [WriteBuffer [1, 2], WriteInt16Array silence]
   \<and> length silence = 32000 \<and> set silence = {0}"
  by (simp add: startConversation_writes_def sendFrames.simps slice_def clampIndex_def silence_def)

end
